theory Spec2Isabelle
  imports Complex_Main "HOL-Library.Sublist" "HOL-Library.Multiset"
begin

section \<open>Strings and arrays of the host language\<close>

text \<open>
  The engine is JavaScript. A string is modelled as a \<^typ>\<open>string\<close> whose characters are the
  code units below 256 (the Latin-1 range); on that range the regular-expression class
  \<^verbatim>\<open>\s\<close> and \<^verbatim>\<open>String.prototype.trim\<close> recognise exactly TAB, LF, VT, FF, CR, SPACE and
  NBSP, and \<^verbatim>\<open>toLowerCase\<close> shifts A-Z and the accented capitals (except the
  multiplication sign) by 32. Numbers that the code only counts with are \<^typ>\<open>int\<close> or
  \<^typ>\<open>nat\<close>; similarity scores are \<^typ>\<open>real\<close> (finite floating-point values, no NaN).
\<close>

definition is_space :: "char \<Rightarrow> bool" where
  "is_space c = (c \<in> set [CHR 0x09, CHR 0x0A, CHR 0x0B, CHR 0x0C, CHR 0x0D, CHR 0x20, CHR 0xA0])"

text \<open>
  \<^verbatim>\<open>s.split(/\s+/)\<close>: the pieces between maximal runs of whitespace. The result is never
  empty; a leading or trailing run of whitespace leaves an empty first or last piece, and the
  empty string splits into one empty piece.
\<close>

function js_split :: "string \<Rightarrow> string list" where
  "js_split s =
     (let w = takeWhile (\<lambda>c. \<not> is_space c) s;
          r = dropWhile (\<lambda>c. \<not> is_space c) s
      in if r = [] then [w] else w # js_split (dropWhile is_space r))"
  by pat_completeness auto
termination
proof (relation "measure length")
  show "wf (measure length)" by simp
next
  fix s :: string and w r
  assume r: "r = dropWhile (\<lambda>c. \<not> is_space c) s" and ne: "r \<noteq> []"
  from ne obtain c r' where cr: "r = c # r'" by (cases r) auto
  have "is_space (hd r)" using hd_dropWhile[of "\<lambda>c. \<not> is_space c" s] r ne by simp
  then have "is_space c" using cr by simp
  then have "dropWhile is_space r = dropWhile is_space r'" using cr by simp
  moreover have "length (dropWhile is_space r') \<le> length r'" by (rule length_dropWhile_le)
  moreover have "length r \<le> length s" unfolding r by (rule length_dropWhile_le)
  ultimately show "(dropWhile is_space r, s) \<in> measure length" using cr by simp
qed

declare js_split.simps [simp del]

text \<open>
  \<^verbatim>\<open>xs.slice(start, end)\<close>, negative indices counting from the end as in the language
  standard.
\<close>

definition js_slice :: "'a list \<Rightarrow> int \<Rightarrow> int \<Rightarrow> 'a list" where
  "js_slice xs start fin =
     (let len = int (length xs);
          k = (if start < 0 then max (len + start) 0 else min start len);
          final = (if fin < 0 then max (len + fin) 0 else min fin len)
      in take (nat (final - k)) (drop (nat k) xs))"

fun join :: "string \<Rightarrow> string list \<Rightarrow> string" where
  "join sep [] = []"
| "join sep [w] = w"
| "join sep (w # v # ws) = w @ sep @ join sep (v # ws)"

definition trim :: "string \<Rightarrow> string" where
  "trim s = rev (dropWhile is_space (rev (dropWhile is_space s)))"

definition toLowerCase_char :: "char \<Rightarrow> char" where
  "toLowerCase_char c =
     (let n = (of_char c :: nat)
      in if (65 \<le> n \<and> n \<le> 90) \<or> (192 \<le> n \<and> n \<le> 222 \<and> n \<noteq> 215)
         then char_of (n + 32) else c)"

definition toLowerCase :: "string \<Rightarrow> string" where
  "toLowerCase s = map toLowerCase_char s"

fun startsWith :: "string \<Rightarrow> string \<Rightarrow> bool" where
  "startsWith s [] = True"
| "startsWith [] (d # ds) = False"
| "startsWith (c # cs) (d # ds) = (c = d \<and> startsWith cs ds)"

text \<open>\<^verbatim>\<open>s.includes(w)\<close>: \<open>w\<close> occurs in \<open>s\<close> as a contiguous substring.\<close>

fun includes_str :: "string \<Rightarrow> string \<Rightarrow> bool" where
  "includes_str [] w = (w = [])"
| "includes_str (c # cs) w = (startsWith (c # cs) w \<or> includes_str cs w)"

text \<open>\<^verbatim>\<open>s.replace(/\s+/g, ' ')\<close>: every maximal run of whitespace becomes one blank.\<close>

function replace_ws :: "string \<Rightarrow> string" where
  "replace_ws [] = []"
| "replace_ws (c # cs) =
     (if is_space c then CHR '' '' # replace_ws (dropWhile is_space cs)
      else c # replace_ws cs)"
  by pat_completeness auto
termination
  by (relation "measure length") (auto simp: le_imp_less_Suc length_dropWhile_le)

text \<open>The decimal rendering of a non-negative integer inside a template literal.\<close>

fun number_toString :: "nat \<Rightarrow> string" where
  "number_toString n =
     (if n < 10 then [char_of (48 + n)]
      else number_toString (n div 10) @ [char_of (48 + n mod 10)])"

declare number_toString.simps [simp del]

text \<open>
  \<^verbatim>\<open>Math.round\<close> rounds halves upwards. Numbers are exact reals here, where the engine has
  IEEE doubles: there a product such as \<open>0.285 * 100\<close> is rounded to a double before
  \<^verbatim>\<open>Math.round\<close> sees it, so a percentage computed here can differ by one from the
  engine's. The percentage takes no part in filtering or ordering.
\<close>

definition Math_round :: "real \<Rightarrow> int" where
  "Math_round x = \<lfloor>x + 1 / 2\<rfloor>"

text \<open>\<^verbatim>\<open>[...new Set(xs)]\<close>: the distinct elements in order of first occurrence.\<close>

fun unique_in_order :: "'a list \<Rightarrow> 'a list \<Rightarrow> 'a list" where
  "unique_in_order seen [] = []"
| "unique_in_order seen (x # xs) =
     (if x \<in> set seen then unique_in_order seen xs else x # unique_in_order (x # seen) xs)"

text \<open>
  \<^verbatim>\<open>Array.prototype.sort\<close> with a comparison callback is stable: an element moves in front
  of another one only when the callback says it is strictly smaller. Insertion from the right
  computes that order.
\<close>

fun insort_cmp :: "('a \<Rightarrow> 'a \<Rightarrow> real) \<Rightarrow> 'a \<Rightarrow> 'a list \<Rightarrow> 'a list" where
  "insort_cmp cmp x [] = [x]"
| "insort_cmp cmp x (y # ys) =
     (if cmp x y \<le> 0 then x # y # ys else y # insort_cmp cmp x ys)"

definition js_sort :: "('a \<Rightarrow> 'a \<Rightarrow> real) \<Rightarrow> 'a list \<Rightarrow> 'a list" where
  "js_sort cmp xs = foldr (insort_cmp cmp) xs []"

text \<open>A thrown \<^verbatim>\<open>Error\<close>, identified by its message.\<close>

datatype js_error = JsError (message: string)

section \<open>Chunking\<close>

record chunk =
  text' :: string
  startIndex :: int
  wordCount :: int

text \<open>
  The \<^verbatim>\<open>for\<close> loop of \<^verbatim>\<open>splitIntoChunks\<close>. The increment \<open>chunkSize - overlap\<close> is not
  checked by the code, so the loop need not terminate: \<open>None\<close> is the call that never returns.
  The function contains no \<^verbatim>\<open>throw\<close>. Lists are unbounded here; an engine on which the
  loop does not end runs until the growing array exhausts its memory.
\<close>

partial_function (option) chunkLoop ::
  "string list \<Rightarrow> int \<Rightarrow> int \<Rightarrow> int \<Rightarrow> chunk list \<Rightarrow> chunk list option" where
  "chunkLoop words chunkSize overlap i chunks =
     (if i < int (length words) then
        (let chunk = join '' '' (js_slice words i (i + chunkSize)) in
         chunkLoop words chunkSize overlap (i + (chunkSize - overlap))
           (if length (trim chunk) > 0
            then chunks @ [\<lparr>chunk.text' = trim chunk, startIndex = i,
                             wordCount = min chunkSize (int (length words) - i)\<rparr>]
            else chunks))
      else Some chunks)"

declare chunkLoop.simps [code]

definition splitIntoChunks :: "string \<Rightarrow> int \<Rightarrow> int \<Rightarrow> chunk list option" where
  "splitIntoChunks text chunkSize overlap = chunkLoop (js_split text) chunkSize overlap 0 []"

section \<open>Stored items, the engine and its collaborators\<close>

record metadata =
  fileName :: string
  filePath :: string
  chunkIndex :: nat
  text' :: string
  wordCount :: int
  preview :: string
  type :: string
  sheet :: "string option"
  row :: "nat option"
  rowRange :: "string option"
  originalTextLength :: nat
  chunkStartIndex :: int

record indexed_item =
  id' :: string
  vector :: "real list"
  metadata :: metadata

text \<open>One element of the array that the store's \<^verbatim>\<open>queryItems\<close> returns.\<close>

record query_result =
  score :: real
  item :: indexed_item

text \<open>
  A cell of a worksheet, by the two observations the code makes of \<^verbatim>\<open>cell.v\<close>: whether
  it is truthy, and its \<^verbatim>\<open>String(...)\<close> conversion. The range is the decoded
  \<^verbatim>\<open>'!ref'\<close> of the sheet; \<open>None\<close> is a sheet without one.
\<close>

record cell =
  v_truthy :: bool
  v_String :: string

record cell_range =
  s_r :: nat
  s_c :: nat
  e_r :: nat
  e_c :: nat

record worksheet =
  ref :: "cell_range option"
  cells :: "nat \<Rightarrow> nat \<Rightarrow> cell option"

record workbook =
  SheetNames :: "string list"
  Sheets :: "string \<Rightarrow> worksheet option"

text \<open>
  The vector store, the embedding provider, the file system and the document parsers are
  libraries outside the repository. Each is taken as a parameter: what the call answers, an
  error (\<open>Inl\<close>) or a value (\<open>Inr\<close>).
\<close>

record env =
  createIndex :: "js_error + unit"
  listItems :: "js_error + indexed_item list"
  queryItems :: "real list \<Rightarrow> int \<Rightarrow> js_error + query_result list"
  insertItem :: "indexed_item \<Rightarrow> js_error + unit"
  embeddings_create :: "string \<Rightarrow> js_error + real list"
  extname :: "string \<Rightarrow> string"
  basename :: "string \<Rightarrow> string"
  readFile_utf8 :: "string \<Rightarrow> js_error + string"
  pdfParse_text :: "string \<Rightarrow> js_error + string"
  mammoth_value :: "string \<Rightarrow> js_error + string"
  XLSX_readFile :: "string \<Rightarrow> js_error + workbook"

text \<open>The engine object; its debug flag only switches console output and is left out.\<close>

record engine =
  indexPath :: string
  isInitialized :: bool

definition initialize :: "env \<Rightarrow> engine \<Rightarrow> js_error + engine" where
  "initialize env eng =
     (if \<not> isInitialized eng then
        (case createIndex env of
           Inr u \<Rightarrow> Inr (eng\<lparr>isInitialized := True\<rparr>)
         | Inl error \<Rightarrow>
             if includes_str (message error) ''already exists''
             then Inr (eng\<lparr>isInitialized := True\<rparr>)
             else Inl error)
      else Inr eng)"

definition generateEmbedding :: "env \<Rightarrow> string \<Rightarrow> js_error + real list" where
  "generateEmbedding env text =
     (let cleanText = replace_ws (trim text) in embeddings_create env cleanText)"

section \<open>Statistics\<close>

record stats =
  totalChunks :: nat
  totalDocuments :: nat
  documents :: "string list"
  indexPath :: string

definition getStats :: "env \<Rightarrow> engine \<Rightarrow> (js_error + stats) \<times> engine" where
  "getStats env eng =
     (case initialize env eng of
        Inl error \<Rightarrow> (Inl error, eng)
      | Inr eng' \<Rightarrow>
          (case listItems env of
             Inr items \<Rightarrow>
               (let fileNames = unique_in_order [] (map (\<lambda>item. metadata.fileName (metadata item)) items)
                in (Inr \<lparr>totalChunks = length items,
                         totalDocuments = length fileNames,
                         documents = fileNames,
                         stats.indexPath = engine.indexPath eng'\<rparr>, eng'))
           | Inl error \<Rightarrow>
               (Inr \<lparr>totalChunks = 0, totalDocuments = 0, documents = [],
                     stats.indexPath = engine.indexPath eng'\<rparr>, eng')))"

section \<open>Search\<close>

record search_result =
  score :: real
  fileName :: string
  text' :: string
  preview :: string
  chunkIndex :: nat
  relevancePercentage :: int
  type :: string
  sheet :: "string option"
  row :: "nat option"
  rowRange :: "string option"
  textMatches :: "string list option"
  hasDirectMatch :: "bool option"
  textMatchScore :: "real option"

text \<open>
  The \<^verbatim>\<open>forEach\<close> over the query words: a word longer than two characters that the
  lower-cased chunk text contains is pushed and sets the flag.
\<close>

definition analyseTextMatches :: "string \<Rightarrow> string list \<Rightarrow> string list \<times> bool" where
  "analyseTextMatches text queryWords =
     fold (\<lambda>word (textMatches, hasDirectMatch).
             if length word > 2 \<and> includes_str text word
             then (textMatches @ [word], True)
             else (textMatches, hasDirectMatch))
          queryWords ([], False)"

text \<open>The callback of \<^verbatim>\<open>results.map\<close>.\<close>

definition processResult :: "string \<Rightarrow> bool \<Rightarrow> query_result \<Rightarrow> search_result" where
  "processResult query includeTextMatches result =
     (let metadata = metadata (item result);
          score = query_result.score result;
          relevancePercentage = Math_round (score * 100);
          (textMatches, hasDirectMatch) =
             (if includeTextMatches
              then analyseTextMatches (toLowerCase (metadata.text' metadata))
                     (js_split (toLowerCase query))
              else ([], False))
      in \<lparr>search_result.score = score,
          fileName = metadata.fileName metadata,
          text' = metadata.text' metadata,
          preview = metadata.preview metadata,
          chunkIndex = metadata.chunkIndex metadata,
          relevancePercentage = relevancePercentage,
          type = metadata.type metadata,
          sheet = metadata.sheet metadata,
          row = metadata.row metadata,
          rowRange = metadata.rowRange metadata,
          textMatches = (if includeTextMatches then Some textMatches else None),
          hasDirectMatch = (if includeTextMatches then Some hasDirectMatch else None),
          textMatchScore =
            (if includeTextMatches
             then Some (real (length textMatches) / real (length (js_split query)))
             else None)\<rparr>)"

text \<open>
  The comparison callback handed to \<^verbatim>\<open>sort\<close>. A missing field is \<^verbatim>\<open>undefined\<close>:
  falsy as a flag, and as a number it makes the difference NaN, which \<^verbatim>\<open>sort\<close> reads
  as 0.
\<close>

definition compareFn :: "search_result \<Rightarrow> search_result \<Rightarrow> real" where
  "compareFn a b =
     (let aDirect = (hasDirectMatch a = Some True);
          bDirect = (hasDirectMatch b = Some True)
      in if aDirect \<and> \<not> bDirect then - 1
         else if \<not> aDirect \<and> bDirect then 1
         else if textMatchScore a \<noteq> textMatchScore b then
           (case (textMatchScore a, textMatchScore b) of
              (Some x, Some y) \<Rightarrow> y - x
            | _ \<Rightarrow> 0)
         else search_result.score b - search_result.score a)"

definition processedResults :: "string \<Rightarrow> bool \<Rightarrow> query_result list \<Rightarrow> search_result list" where
  "processedResults query includeTextMatches results =
     map (processResult query includeTextMatches) results"

definition filteredResults :: "real \<Rightarrow> search_result list \<Rightarrow> search_result list" where
  "filteredResults minScore processed =
     (if minScore > 0 then filter (\<lambda>r. search_result.score r \<ge> minScore) processed
      else processed)"

definition sortedResults :: "bool \<Rightarrow> search_result list \<Rightarrow> search_result list" where
  "sortedResults includeTextMatches filtered =
     (if includeTextMatches then js_sort compareFn filtered else filtered)"

definition finalResults ::
  "string \<Rightarrow> int \<Rightarrow> bool \<Rightarrow> real \<Rightarrow> query_result list \<Rightarrow> search_result list" where
  "finalResults query topK includeTextMatches minScore results =
     js_slice
       (sortedResults includeTextMatches
          (filteredResults minScore (processedResults query includeTextMatches results)))
       0 topK"

definition search ::
  "env \<Rightarrow> engine \<Rightarrow> string \<Rightarrow> int \<Rightarrow> bool \<Rightarrow> real \<Rightarrow> (js_error + search_result list) \<times> engine" where
  "search env eng query topK includeTextMatches minScore =
     (case initialize env eng of
        Inl error \<Rightarrow> (Inl error, eng)
      | Inr eng' \<Rightarrow>
          (case generateEmbedding env query of
             Inl error \<Rightarrow> (Inl error, eng')
           | Inr queryEmbedding \<Rightarrow>
               (case queryItems env queryEmbedding (max (topK * 3) 50) of
                  Inl error \<Rightarrow> (Inl error, eng')
                | Inr results \<Rightarrow>
                    (Inr (finalResults query topK includeTextMatches minScore results), eng'))))"

section \<open>Text extraction\<close>

record excel_row =
  text' :: string
  sheet :: string
  row :: nat
  rowRange :: string

record extracted_unit =
  text' :: string
  fileName :: string
  type :: string
  sheet :: "string option"
  row :: "nat option"
  rowRange :: "string option"

definition rowData :: "worksheet \<Rightarrow> cell_range \<Rightarrow> nat \<Rightarrow> string list" where
  "rowData worksheet range' r =
     concat (map (\<lambda>col. case cells worksheet r col of
                           None \<Rightarrow> []
                         | Some cell \<Rightarrow> if v_truthy cell then [v_String cell] else [])
                 [s_c range' ..< Suc (e_c range')])"

definition sheetRows :: "string \<Rightarrow> worksheet \<Rightarrow> excel_row list" where
  "sheetRows sheetName worksheet =
     (case ref worksheet of
        None \<Rightarrow> []
      | Some range' \<Rightarrow>
          concat (map (\<lambda>r. if length (rowData worksheet range' r) > 0
                            then [\<lparr>excel_row.text' = join '' | '' (rowData worksheet range' r),
                                   sheet = sheetName,
                                   row = r + 1,
                                   rowRange = number_toString (r + 1) @ '':'' @ number_toString (r + 1)\<rparr>]
                            else [])
                      [s_r range' ..< Suc (e_r range')]))"

text \<open>
  The \<^verbatim>\<open>forEach\<close> over the sheet names. A name without a sheet object makes the property
  read fail with a type error.
\<close>

fun sheetsLoop :: "workbook \<Rightarrow> string list \<Rightarrow> excel_row list \<Rightarrow> js_error + excel_row list" where
  "sheetsLoop workbook [] results = Inr results"
| "sheetsLoop workbook (sheetName # rest) results =
     (case Sheets workbook sheetName of
        None \<Rightarrow> Inl (JsError ''Cannot read properties of undefined'')
      | Some worksheet \<Rightarrow> sheetsLoop workbook rest (results @ sheetRows sheetName worksheet))"

definition extractTextFromExcel :: "env \<Rightarrow> string \<Rightarrow> js_error + excel_row list" where
  "extractTextFromExcel env filePath' =
     (case XLSX_readFile env filePath' of
        Inl error \<Rightarrow> Inl error
      | Inr workbook \<Rightarrow> sheetsLoop workbook (SheetNames workbook) [])"

definition plain_unit :: "string \<Rightarrow> string \<Rightarrow> string \<Rightarrow> extracted_unit" where
  "plain_unit text fileName' type' =
     \<lparr>extracted_unit.text' = text, fileName = fileName', type = type',
      sheet = None, row = None, rowRange = None\<rparr>"

definition excel_unit :: "string \<Rightarrow> excel_row \<Rightarrow> extracted_unit" where
  "excel_unit fileName' excelRow =
     \<lparr>extracted_unit.text' = excel_row.text' excelRow, fileName = fileName', type = ''excel'',
      sheet = Some (excel_row.sheet excelRow), row = Some (excel_row.row excelRow),
      rowRange = Some (excel_row.rowRange excelRow)\<rparr>"

definition extractTextFromFile :: "env \<Rightarrow> string \<Rightarrow> js_error + extracted_unit list" where
  "extractTextFromFile env filePath' =
     (let ext = toLowerCase (extname env filePath');
          fileName = basename env filePath'
      in if ext = ''.pdf'' then
           (case pdfParse_text env filePath' of
              Inl error \<Rightarrow> Inl error
            | Inr text \<Rightarrow> Inr [plain_unit text fileName ''pdf''])
         else if ext = ''.docx'' then
           (case mammoth_value env filePath' of
              Inl error \<Rightarrow> Inl error
            | Inr text \<Rightarrow> Inr [plain_unit text fileName ''docx''])
         else if ext = ''.xlsx'' \<or> ext = ''.xls'' then
           (case extractTextFromExcel env filePath' of
              Inl error \<Rightarrow> Inl error
            | Inr excelData \<Rightarrow> Inr (map (excel_unit fileName) excelData))
         else if ext = ''.txt'' \<or> ext = ''.md'' then
           (case readFile_utf8 env filePath' of
              Inl error \<Rightarrow> Inl error
            | Inr text \<Rightarrow> Inr [plain_unit text fileName ''text''])
         else Inl (JsError (''Unsupported file format: '' @ ext)))"

section \<open>Indexing\<close>

text \<open>
  What an indexing run does to the outside, in order: the items handed to the store's
  \<^verbatim>\<open>insertItem\<close> and the pauses (\<^verbatim>\<open>setTimeout\<close>, in milliseconds).
\<close>

datatype event = InsertItem indexed_item | Delay nat

definition batchSize :: nat where
  "batchSize = 5"

definition chunkId :: "extracted_unit \<Rightarrow> nat \<Rightarrow> string" where
  "chunkId data n =
     (case extracted_unit.sheet data of
        Some sheetName \<Rightarrow>
          if sheetName \<noteq> [] then
            extracted_unit.fileName data @ ''_'' @ sheetName @ ''_row'' @
              (case extracted_unit.row data of
                 Some r \<Rightarrow> number_toString r
               | None \<Rightarrow> ''undefined'') @
              ''_chunk'' @ number_toString n
          else extracted_unit.fileName data @ ''_chunk_'' @ number_toString n
      | None \<Rightarrow> extracted_unit.fileName data @ ''_chunk_'' @ number_toString n)"

text \<open>The object literal passed to \<^verbatim>\<open>insertItem\<close>; \<^verbatim>\<open>x || null\<close> turns a falsy \<open>x\<close> into null.\<close>

definition makeItem ::
  "string \<Rightarrow> extracted_unit \<Rightarrow> nat \<Rightarrow> chunk \<Rightarrow> real list \<Rightarrow> indexed_item" where
  "makeItem filePath' data n chunk embedding =
     \<lparr>id' = chunkId data n,
      vector = embedding,
      metadata =
        \<lparr>metadata.fileName = extracted_unit.fileName data,
         filePath = filePath',
         chunkIndex = n,
         text' = chunk.text' chunk,
         wordCount = chunk.wordCount chunk,
         preview = take 150 (chunk.text' chunk) @ ''...'',
         type = extracted_unit.type data,
         sheet = (case extracted_unit.sheet data of
                    Some sheetName \<Rightarrow> if sheetName \<noteq> [] then Some sheetName else None
                  | None \<Rightarrow> None),
         row = (case extracted_unit.row data of
                  Some r \<Rightarrow> if r \<noteq> 0 then Some r else None
                | None \<Rightarrow> None),
         rowRange = (case extracted_unit.rowRange data of
                       Some rr \<Rightarrow> if rr \<noteq> [] then Some rr else None
                     | None \<Rightarrow> None),
         originalTextLength = length (extracted_unit.text' data),
         chunkStartIndex = chunk.startIndex chunk\<rparr>\<rparr>"

text \<open>
  The asynchronous callback run for one chunk of a batch: embed, then insert. An embedding
  failure ends it before the store is called.
\<close>

definition indexChunk ::
  "env \<Rightarrow> string \<Rightarrow> extracted_unit \<Rightarrow> nat \<Rightarrow> chunk \<Rightarrow> event list \<times> (js_error + unit)" where
  "indexChunk env filePath' data n chunk =
     (case generateEmbedding env (chunk.text' chunk) of
        Inl error \<Rightarrow> ([], Inl error)
      | Inr embedding \<Rightarrow>
          ([InsertItem (makeItem filePath' data n chunk embedding)],
           insertItem env (makeItem filePath' data n chunk embedding)))"

text \<open>
  \<^verbatim>\<open>Promise.all\<close> over the callbacks of one batch. All of them are started, so every chunk
  whose embedding arrives is inserted; the whole fails when one of them fails. The store calls
  of one batch are listed in batch order, and the reported error is that of the first failing
  chunk in that order: the interleaving inside a batch is left to the scheduler and no
  statement below depends on it.
\<close>

fun Promise_all :: "(event list \<times> (js_error + unit)) list \<Rightarrow> event list \<times> (js_error + unit)" where
  "Promise_all [] = ([], Inr ())"
| "Promise_all ((evs, r) # rest) =
     (case Promise_all rest of
        (evs', r') \<Rightarrow> (evs @ evs', (case r of Inl error \<Rightarrow> Inl error | Inr u \<Rightarrow> r')))"

definition runBatch ::
  "env \<Rightarrow> string \<Rightarrow> extracted_unit \<Rightarrow> nat \<Rightarrow> chunk list \<Rightarrow> event list \<times> (js_error + unit)" where
  "runBatch env filePath' data i batch =
     Promise_all (map (\<lambda>(chunk, batchIndex). indexChunk env filePath' data (i + batchIndex) chunk)
                      (zip batch [0 ..< length batch]))"

text \<open>The loop over the batches of one extracted unit.\<close>

function batchLoop ::
  "env \<Rightarrow> string \<Rightarrow> extracted_unit \<Rightarrow> chunk list \<Rightarrow> nat \<Rightarrow> event list \<times> (js_error + unit)" where
  "batchLoop env filePath' data chunks i =
     (if i < length chunks then
        (case runBatch env filePath' data i (js_slice chunks (int i) (int (i + batchSize))) of
           (evs, Inl error) \<Rightarrow> (evs, Inl error)
         | (evs, Inr u) \<Rightarrow>
             (case batchLoop env filePath' data chunks (i + batchSize) of
                (evs', r) \<Rightarrow>
                  (evs @ (if i + batchSize < length chunks then [Delay 100] else []) @ evs', r)))
      else ([], Inr ()))"
  by pat_completeness auto
termination
  by (relation "measure (\<lambda>(env, filePath', data, chunks, i). length chunks - i)")
     (auto simp: batchSize_def)

declare batchLoop.simps [simp del]

text \<open>
  The body of the loop over the extracted units, for one unit: chunk its text with the
  default parameters, run the batches, and report the number of chunks.
\<close>

definition indexUnit ::
  "env \<Rightarrow> string \<Rightarrow> extracted_unit \<Rightarrow> ((event list \<times> (js_error + unit)) \<times> nat) option" where
  "indexUnit env filePath' data =
     (case splitIntoChunks (extracted_unit.text' data) 500 50 of
        None \<Rightarrow> None
      | Some chunks \<Rightarrow> Some (batchLoop env filePath' data chunks 0, length chunks))"

fun unitsLoop ::
  "env \<Rightarrow> string \<Rightarrow> extracted_unit list \<Rightarrow> nat \<Rightarrow> (event list \<times> (js_error + nat)) option" where
  "unitsLoop env filePath' [] totalChunks' = Some ([], Inr totalChunks')"
| "unitsLoop env filePath' (data # rest) totalChunks' =
     (case indexUnit env filePath' data of
        None \<Rightarrow> None
      | Some ((evs, Inl error), n) \<Rightarrow> Some (evs, Inl error)
      | Some ((evs, Inr u), n) \<Rightarrow>
          (case unitsLoop env filePath' rest (totalChunks' + n) of
             None \<Rightarrow> None
           | Some (evs', r) \<Rightarrow> Some (evs @ evs', r)))"

record index_result =
  fileName :: string
  chunksCreated :: nat

definition indexDocument ::
  "env \<Rightarrow> engine \<Rightarrow> string \<Rightarrow> ((event list \<times> (js_error + index_result)) \<times> engine) option" where
  "indexDocument env eng filePath' =
     (case initialize env eng of
        Inl error \<Rightarrow> Some (([], Inl error), eng)
      | Inr eng' \<Rightarrow>
          (case extractTextFromFile env filePath' of
             Inl error \<Rightarrow> Some (([], Inl error), eng')
           | Inr extractedData \<Rightarrow>
               (case unitsLoop env filePath' extractedData 0 of
                  None \<Rightarrow> None
                | Some (evs, Inl error) \<Rightarrow> Some ((evs, Inl error), eng')
                | Some (evs, Inr totalChunks') \<Rightarrow>
                    Some ((evs, Inr \<lparr>index_result.fileName = basename env filePath',
                                      chunksCreated = totalChunks'\<rparr>), eng'))))"

section \<open>Notions used to state the properties\<close>

text \<open>
  The offsets visited by a loop that starts at \<open>i\<close> and adds \<open>stride\<close> while it is below
  \<open>n\<close>, and their closed form \<open>0, stride, 2 * stride, \<dots>\<close> below \<open>n\<close>.
\<close>

function offsets_from :: "int \<Rightarrow> int \<Rightarrow> int \<Rightarrow> int list" where
  "offsets_from n stride i = (if 0 < stride \<and> i < n then i # offsets_from n stride (i + stride) else [])"
  by pat_completeness auto
termination
  by (relation "measure (\<lambda>(n, stride, i). nat (n - i))") auto

declare offsets_from.simps [simp del]

definition offsets :: "int \<Rightarrow> int \<Rightarrow> int list" where
  "offsets n stride = map (\<lambda>k. int k * stride) [0 ..< nat ((n + stride - 1) div stride)]"

definition chunk_at :: "string list \<Rightarrow> int \<Rightarrow> int \<Rightarrow> chunk" where
  "chunk_at words chunkSize offset =
     \<lparr>chunk.text' = trim (join '' '' (take (nat chunkSize) (drop (nat offset) words))),
      chunk.startIndex = offset,
      chunk.wordCount = min chunkSize (int (length words) - offset)\<rparr>"


text \<open>
  The composite key of the hybrid ranking, compared lexicographically and descending: a direct
  match first, then the larger text-match score, then the larger similarity score.
\<close>

definition key_ge :: "search_result \<Rightarrow> search_result \<Rightarrow> bool" where
  "key_ge a b =
     (let da = (hasDirectMatch a = Some True); db = (hasDirectMatch b = Some True);
          ta = (case textMatchScore a of Some x \<Rightarrow> x | None \<Rightarrow> 0);
          tb = (case textMatchScore b of Some x \<Rightarrow> x | None \<Rightarrow> 0)
      in (da \<and> \<not> db) \<or>
         (da = db \<and> (tb < ta \<or> (ta = tb \<and> search_result.score b \<le> search_result.score a))))"

text \<open>Sample data for the concrete instances: a stored item, a set of collaborators that
  answer every query with the given candidates, and a fresh engine.\<close>

definition example_item :: "string \<Rightarrow> string \<Rightarrow> indexed_item" where
  "example_item name text =
     \<lparr>id' = name, vector = [],
      metadata = \<lparr>metadata.fileName = name, filePath = name, chunkIndex = 0, text' = text,
                  wordCount = int (length (js_split text)), preview = take 150 text @ ''...'',
                  type = ''text'', sheet = None, row = None, rowRange = None,
                  originalTextLength = length text, chunkStartIndex = 0\<rparr>\<rparr>"

definition example_env :: "query_result list \<Rightarrow> env" where
  "example_env candidates =
     \<lparr>createIndex = Inr (),
      listItems = Inr (map item candidates),
      queryItems = (\<lambda>v k. Inr (js_slice candidates 0 k)),
      insertItem = (\<lambda>i. Inr ()),
      embeddings_create = (\<lambda>t. Inr []),
      extname = (\<lambda>p. dropWhile (\<lambda>c. c \<noteq> CHR ''.'') p),
      basename = (\<lambda>p. p),
      readFile_utf8 = (\<lambda>p. Inl (JsError ''ENOENT'')),
      pdfParse_text = (\<lambda>p. Inl (JsError ''ENOENT'')),
      mammoth_value = (\<lambda>p. Inl (JsError ''ENOENT'')),
      XLSX_readFile = (\<lambda>p. Inl (JsError ''ENOENT''))\<rparr>"

text \<open>A result that carries the lexical fields.\<close>

definition complete :: "search_result \<Rightarrow> bool" where
  "complete r = (hasDirectMatch r \<noteq> None \<and> textMatchScore r \<noteq> None)"

definition engine0 :: engine where
  "engine0 = \<lparr>engine.indexPath = ''./requirements-index'', isInitialized = False\<rparr>"

text \<open>The items inserted and the number of pauses in a sequence of events.\<close>

fun inserted :: "event list \<Rightarrow> indexed_item list" where
  "inserted [] = []"
| "inserted (InsertItem it # evs) = it # inserted evs"
| "inserted (Delay ms # evs) = inserted evs"

fun delays :: "event list \<Rightarrow> nat" where
  "delays [] = 0"
| "delays (InsertItem it # evs) = delays evs"
| "delays (Delay ms # evs) = Suc (delays evs)"

text \<open>
  A list cut into consecutive batches of \<open>n\<close>, and the events of inserting batch after batch
  with one pause between two batches.
\<close>

function batches :: "nat \<Rightarrow> 'a list \<Rightarrow> 'a list list" where
  "batches n xs = (if n = 0 \<or> xs = [] then [] else take n xs # batches n (drop n xs))"
  by pat_completeness auto
termination
  by (relation "measure (\<lambda>(n, xs). length xs)") auto

declare batches.simps [simp del]

fun interleave :: "indexed_item list list \<Rightarrow> event list" where
  "interleave [] = []"
| "interleave [b] = map InsertItem b"
| "interleave (b # b' # bs) = map InsertItem b @ Delay 100 # interleave (b' # bs)"

text \<open>
  The item built for the chunk with index \<open>fst p\<close> of a unit, and the items of all chunks of
  the unit in order of their index.
\<close>

definition item_of :: "env \<Rightarrow> string \<Rightarrow> extracted_unit \<Rightarrow> nat \<times> chunk \<Rightarrow> indexed_item" where
  "item_of env filePath' data p =
     makeItem filePath' data (fst p) (snd p)
       (case generateEmbedding env (chunk.text' (snd p)) of Inr embedding \<Rightarrow> embedding | Inl error \<Rightarrow> [])"

definition unit_items :: "env \<Rightarrow> string \<Rightarrow> extracted_unit \<Rightarrow> chunk list \<Rightarrow> indexed_item list" where
  "unit_items env filePath' data chunks = map (item_of env filePath' data) (enumerate 0 chunks)"

text \<open>
  The chunks of a text under the default parameters 500 and 50 (see \<open>splitIntoChunks_default\<close>),
  the events of a unit whose batches all succeed, and the items of all units of a document.
\<close>

definition default_chunks :: "string \<Rightarrow> chunk list" where
  "default_chunks text =
     map (chunk_at (js_split text) 500)
       (filter (\<lambda>offset. \<exists>w\<in>set (take 500 (drop (nat offset) (js_split text))). w \<noteq> [])
          (offsets (int (length (js_split text))) 450))"

definition unit_events :: "env \<Rightarrow> string \<Rightarrow> extracted_unit \<Rightarrow> event list" where
  "unit_events env filePath' data =
     interleave (batches batchSize
       (unit_items env filePath' data (default_chunks (extracted_unit.text' data))))"

definition document_items :: "env \<Rightarrow> string \<Rightarrow> extracted_unit list \<Rightarrow> indexed_item list" where
  "document_items env filePath' units =
     concat (map (\<lambda>data. unit_items env filePath' data (default_chunks (extracted_unit.text' data))) units)"




text \<open>Decimal digits, and the number that a string of digits denotes.\<close>

definition is_digit :: "char \<Rightarrow> bool" where
  "is_digit c = (48 \<le> (of_char c :: nat) \<and> (of_char c :: nat) \<le> 57)"

definition digits_value :: "string \<Rightarrow> nat" where
  "digits_value ds = foldl (\<lambda>a c. 10 * a + ((of_char c :: nat) - 48)) 0 ds"

text \<open>
  The place of a row and of a unit in a workbook, and the two shapes of what the extraction
  of a file returns: one unit without a sheet, or units of one workbook, each with a non-empty
  sheet name and a positive row number, no two at the same place.
\<close>

definition row_key :: "excel_row \<Rightarrow> string \<times> nat" where
  "row_key r = (excel_row.sheet r, excel_row.row r)"

definition unit_key :: "extracted_unit \<Rightarrow> string option \<times> nat option" where
  "unit_key u = (extracted_unit.sheet u, extracted_unit.row u)"

definition sheet_units :: "string \<Rightarrow> extracted_unit list \<Rightarrow> bool" where
  "sheet_units F units =
     (distinct (map unit_key units) \<and>
      list_all (\<lambda>u. extracted_unit.fileName u = F \<and>
                  (case (extracted_unit.sheet u, extracted_unit.row u) of
                     (Some s, Some r) \<Rightarrow> s \<noteq> [] \<and> r \<noteq> 0
                   | _ \<Rightarrow> False)) units)"

definition plain_units :: "string \<Rightarrow> extracted_unit list \<Rightarrow> bool" where
  "plain_units F units =
     (case units of
        [u] \<Rightarrow> extracted_unit.fileName u = F \<and> extracted_unit.sheet u = None
      | _ \<Rightarrow> False)"

text \<open>A workbook of two sheets with three non-empty rows, and collaborators that read it.\<close>

definition example_workbook :: workbook where
  "example_workbook =
     \<lparr>SheetNames = [''Reqs'', ''Notes''],
      Sheets = (\<lambda>name.
        if name = ''Reqs'' then
          Some \<lparr>ref = Some \<lparr>s_r = 0, s_c = 0, e_r = 1, e_c = 1\<rparr>,
                cells = (\<lambda>r c. if r = 0 \<and> c = 0 then Some \<lparr>v_truthy = True, v_String = ''login''\<rparr>
                               else if r = 1 \<and> c = 1 then Some \<lparr>v_truthy = True, v_String = ''logout''\<rparr>
                               else None)\<rparr>
        else if name = ''Notes'' then
          Some \<lparr>ref = Some \<lparr>s_r = 0, s_c = 0, e_r = 0, e_c = 0\<rparr>,
                cells = (\<lambda>r c. Some \<lparr>v_truthy = True, v_String = ''todo''\<rparr>)\<rparr>
        else None)\<rparr>"

definition example_xlsx_env :: env where
  "example_xlsx_env = (example_env [])\<lparr>XLSX_readFile := (\<lambda>p. Inr example_workbook)\<rparr>"

text \<open>
  A workbook that lists the sheet name \<open>A\<close> twice, a workbook whose only sheet has the empty
  name and two rows, and collaborators that read a given workbook.
\<close>

definition example_dup_workbook :: workbook where
  "example_dup_workbook =
     \<lparr>SheetNames = [''A'', ''A''],
      Sheets = (\<lambda>name.
        if name = ''A'' then
          Some \<lparr>ref = Some \<lparr>s_r = 0, s_c = 0, e_r = 0, e_c = 0\<rparr>,
                cells = (\<lambda>r c. Some \<lparr>v_truthy = True, v_String = ''login''\<rparr>)\<rparr>
        else None)\<rparr>"

definition example_blank_workbook :: workbook where
  "example_blank_workbook =
     \<lparr>SheetNames = [''''],
      Sheets = (\<lambda>name.
        if name = '''' then
          Some \<lparr>ref = Some \<lparr>s_r = 0, s_c = 0, e_r = 1, e_c = 0\<rparr>,
                cells = (\<lambda>r c. Some \<lparr>v_truthy = True, v_String = ''login''\<rparr>)\<rparr>
        else None)\<rparr>"

definition example_workbook_env :: "workbook \<Rightarrow> env" where
  "example_workbook_env wb = (example_env [])\<lparr>XLSX_readFile := (\<lambda>p. Inr wb)\<rparr>"

section \<open>Properties of the chunker\<close>

lemma js_slice_window:
  assumes "0 \<le> i" "0 \<le> c"
  shows "js_slice xs i (i + c) = take (nat c) (drop (nat i) xs)"
proof (cases "i \<le> int (length xs)")
  case True
  with assms show ?thesis
    by (auto simp: js_slice_def Let_def min_def max_def)
next
  case False
  with assms show ?thesis
    by (auto simp: js_slice_def Let_def min_def max_def)
qed

lemma chunkLoop_unroll:
  assumes "0 < chunkSize - overlap"
  shows "chunkLoop words chunkSize overlap i acc =
         Some (acc @ map (\<lambda>j. \<lparr>chunk.text' = trim (join '' '' (js_slice words j (j + chunkSize))),
                                  chunk.startIndex = j,
                                  chunk.wordCount = min chunkSize (int (length words) - j)\<rparr>)
                       (filter (\<lambda>j. trim (join '' '' (js_slice words j (j + chunkSize))) \<noteq> [])
                          (offsets_from (int (length words)) (chunkSize - overlap) i)))"
  using assms
proof (induction "int (length words)" "chunkSize - overlap" i arbitrary: acc rule: offsets_from.induct)
  case (1 i)
  show ?case
  proof (cases "i < int (length words)")
    case True
    show ?thesis
      apply (subst chunkLoop.simps)
      apply (subst offsets_from.simps)
      using True "1.prems" "1.hyps"[OF _ "1.prems"]
      apply (simp add: Let_def)
      done
  next
    case False
    then show ?thesis
      by (subst chunkLoop.simps, subst offsets_from.simps) simp
  qed
qed



lemma mult_less_iff_less_ceil:
  fixes n s k :: int
  assumes "0 < s"
  shows "k * s < n \<longleftrightarrow> k < (n + s - 1) div s"
proof -
  define q where "q = (n - 1) div s"
  define r where "r = (n - 1) mod s"
  have n: "n - 1 = q * s + r" by (simp add: q_def r_def)
  have r: "0 \<le> r" "r < s" using assms by (simp_all add: r_def)
  have "(n + s - 1) div s = ((n - 1) + s) div s" by (simp add: algebra_simps)
  also have "\<dots> = (n - 1) div s + 1" using assms by simp
  finally have c: "(n + s - 1) div s = q + 1" by (simp add: q_def)
  show ?thesis
  proof
    assume lt: "k * s < n"
    show "k < (n + s - 1) div s"
    proof (rule ccontr)
      assume "\<not> k < (n + s - 1) div s"
      then have "q + 1 \<le> k" using c by simp
      then have "(q + 1) * s \<le> k * s" using assms by (simp add: mult_right_mono)
      then show False using n r lt by (simp add: algebra_simps)
    qed
  next
    assume "k < (n + s - 1) div s"
    then have "k \<le> q" using c by simp
    then have "k * s \<le> q * s" using assms by (simp add: mult_right_mono)
    then show "k * s < n" using n r by linarith
  qed
qed

lemma offsets_from_multiples:
  assumes "0 < s"
  shows "offsets_from n s (int k * s) = map (\<lambda>j. int j * s) [k ..< nat ((n + s - 1) div s)]"
proof (induction "nat ((n + s - 1) div s) - k" arbitrary: k)
  case 0
  then have "\<not> int k < (n + s - 1) div s" by linarith
  then have "\<not> int k * s < n" using mult_less_iff_less_ceil[OF assms] by simp
  then show ?case using 0 by (subst offsets_from.simps) simp
next
  case (Suc d)
  then have lt: "k < nat ((n + s - 1) div s)" by linarith
  then have "int k < (n + s - 1) div s" by linarith
  then have "int k * s < n" using mult_less_iff_less_ceil[OF assms] by simp
  moreover have "int k * s + s = int (Suc k) * s" by (simp add: algebra_simps)
  moreover have "d = nat ((n + s - 1) div s) - Suc k" using Suc.hyps(2) by simp
  ultimately show ?case
    using Suc.hyps(1)[of "Suc k"] assms lt
    by (subst offsets_from.simps) (simp add: upt_conv_Cons)
qed

lemma offsets_from_zero:
  assumes "0 < s"
  shows "offsets_from n s 0 = offsets n s"
  using offsets_from_multiples[OF assms, of n 0] by (simp add: offsets_def)

lemma set_offsets:
  assumes "0 < s"
  shows "set (offsets n s) = {i. \<exists>k::nat. i = int k * s \<and> i < n}"
proof -
  have iff: "(k < nat ((n + s - 1) div s)) = (int k * s < n)" for k :: nat
    using mult_less_iff_less_ceil[OF assms, of "int k" n]
    by (simp only: zless_nat_eq_int_zless)
  have "set (offsets n s) = (\<lambda>k. int k * s) ` {k. k < nat ((n + s - 1) div s)}"
    unfolding offsets_def by (simp add: atLeast0LessThan lessThan_def)
  also have "\<dots> = {i. \<exists>k::nat. i = int k * s \<and> i < n}"
    unfolding iff by blast
  finally show ?thesis .
qed

lemma js_split_nonempty: "js_split s \<noteq> []"
  by (subst js_split.simps) (simp add: Let_def)

lemma js_split_unfold_last:
  assumes "dropWhile (\<lambda>c. \<not> is_space c) s = []"
  shows "js_split s = [takeWhile (\<lambda>c. \<not> is_space c) s]"
proof -
  have "js_split s = (let w = takeWhile (\<lambda>c. \<not> is_space c) s;
          r = dropWhile (\<lambda>c. \<not> is_space c) s
      in if r = [] then [w] else w # js_split (dropWhile is_space r))"
    by (rule js_split.simps)
  then show ?thesis unfolding Let_def using assms by simp
qed

lemma js_split_unfold_more:
  assumes "dropWhile (\<lambda>c. \<not> is_space c) s \<noteq> []"
  shows "js_split s = takeWhile (\<lambda>c. \<not> is_space c) s #
           js_split (dropWhile is_space (dropWhile (\<lambda>c. \<not> is_space c) s))"
proof -
  have "js_split s = (let w = takeWhile (\<lambda>c. \<not> is_space c) s;
          r = dropWhile (\<lambda>c. \<not> is_space c) s
      in if r = [] then [w] else w # js_split (dropWhile is_space r))"
    by (rule js_split.simps)
  then show ?thesis unfolding Let_def using assms by (simp only: if_False)
qed

lemma js_split_no_space: "w \<in> set (js_split s) \<Longrightarrow> c \<in> set w \<Longrightarrow> \<not> is_space c"
proof (induction s arbitrary: w rule: js_split.induct)
  case (1 s)
  show ?case
  proof (cases "dropWhile (\<lambda>c. \<not> is_space c) s = []")
    case True
    with "1.prems" have "w = takeWhile (\<lambda>c. \<not> is_space c) s"
      by (simp only: js_split_unfold_last[OF True]) simp
    with "1.prems"(2) show ?thesis by (auto dest: set_takeWhileD)
  next
    case False
    with "1.prems"(1) have "w = takeWhile (\<lambda>c. \<not> is_space c) s \<or>
        w \<in> set (js_split (dropWhile is_space (dropWhile (\<lambda>c. \<not> is_space c) s)))"
      by (simp only: js_split_unfold_more[OF False]) simp
    then show ?thesis
    proof
      assume "w = takeWhile (\<lambda>c. \<not> is_space c) s"
      with "1.prems"(2) show ?thesis by (auto dest: set_takeWhileD)
    next
      assume "w \<in> set (js_split (dropWhile is_space (dropWhile (\<lambda>c. \<not> is_space c) s)))"
      then show ?thesis using "1.IH"[OF refl refl False _ "1.prems"(2)] by simp
    qed
  qed
qed

lemma trim_empty_iff: "trim s = [] \<longleftrightarrow> (\<forall>c\<in>set s. is_space c)"
proof -
  have "trim s = [] \<longleftrightarrow> (\<forall>c\<in>set (dropWhile is_space s). is_space c)"
    by (simp add: trim_def dropWhile_eq_Nil_conv)
  also have "\<dots> \<longleftrightarrow> dropWhile is_space s = []"
  proof
    assume a: "\<forall>c\<in>set (dropWhile is_space s). is_space c"
    show "dropWhile is_space s = []"
    proof (rule ccontr)
      assume ne: "dropWhile is_space s \<noteq> []"
      then have "\<not> is_space (hd (dropWhile is_space s))" by (rule hd_dropWhile)
      moreover have "hd (dropWhile is_space s) \<in> set (dropWhile is_space s)" using ne by simp
      ultimately show False using a by blast
    qed
  qed (auto dest: set_dropWhileD)
  also have "\<dots> \<longleftrightarrow> (\<forall>c\<in>set s. is_space c)" by (rule dropWhile_eq_Nil_conv)
  finally show ?thesis .
qed

lemma is_space_blank: "is_space CHR '' ''"
  by (simp add: is_space_def)

lemma join_sep_all_space_iff:
  assumes "\<forall>c\<in>set sep. is_space c"
  shows "(\<forall>c\<in>set (join sep ws). is_space c) \<longleftrightarrow> (\<forall>w\<in>set ws. \<forall>c\<in>set w. is_space c)"
  using assms by (induction sep ws rule: join.induct) auto

lemma join_all_space_iff:
  "(\<forall>c\<in>set (join '' '' ws). is_space c) \<longleftrightarrow> (\<forall>w\<in>set ws. \<forall>c\<in>set w. is_space c)"
  by (rule join_sep_all_space_iff) (simp add: is_space_blank)

lemma keeps_iff_nonempty_word:
  assumes "\<forall>w\<in>set ws. \<forall>c\<in>set w. \<not> is_space c"
  shows "trim (join '' '' ws) \<noteq> [] \<longleftrightarrow> (\<exists>w\<in>set ws. w \<noteq> [])"
proof -
  have "trim (join '' '' ws) \<noteq> [] \<longleftrightarrow> (\<exists>w\<in>set ws. \<exists>c\<in>set w. \<not> is_space c)"
    by (simp add: trim_empty_iff join_all_space_iff)
  also have "\<dots> \<longleftrightarrow> (\<exists>w\<in>set ws. w \<noteq> [])"
    using assms by (metis all_not_in_conv set_empty last_in_set)
  finally show ?thesis .
qed

lemma chunkLoop_diverges:
  assumes "chunkSize - overlap \<le> 0" "i < int (length words)"
  shows "chunkLoop words chunkSize overlap i acc = None"
proof (rule ccontr)
  assume "chunkLoop words chunkSize overlap i acc \<noteq> None"
  then obtain r where "chunkLoop words chunkSize overlap i acc = Some r" by auto
  then have "\<not> (chunkSize - overlap \<le> 0 \<and> i < int (length words))"
  proof (rule chunkLoop.raw_induct[rotated, where P = "\<lambda>words chunkSize overlap i acc r.
            \<not> (chunkSize - overlap \<le> 0 \<and> i < int (length words))"])
    fix f words chunkSize overlap i acc r
    assume IH: "\<And>words chunkSize overlap i acc r. f words chunkSize overlap i acc = Some r \<Longrightarrow>
                  \<not> (chunkSize - overlap \<le> 0 \<and> i < int (length words))"
      and body: "(if i < int (length words) then
        (let chunk = join '' '' (js_slice words i (i + chunkSize)) in
         f words chunkSize overlap (i + (chunkSize - overlap))
           (if length (trim chunk) > 0
            then acc @ [\<lparr>chunk.text' = trim chunk, chunk.startIndex = i,
                             chunk.wordCount = min chunkSize (int (length words) - i)\<rparr>]
            else acc))
      else Some acc) = Some r"
    show "\<not> (chunkSize - overlap \<le> 0 \<and> i < int (length words))"
    proof
      assume a: "chunkSize - overlap \<le> 0 \<and> i < int (length words)"
      then have b: "i + (chunkSize - overlap) < int (length words)" by simp
      from a body obtain acc' where
        "f words chunkSize overlap (i + (chunkSize - overlap)) acc' = Some r"
        by (simp add: Let_def split: if_splits)
      from IH[OF this] a b show False by simp
    qed
  qed
  with assms show False by simp
qed

lemma offsets_nonneg: "0 < s \<Longrightarrow> j \<in> set (offsets n s) \<Longrightarrow> 0 \<le> j"
  by (auto simp: offsets_def)

lemma splitIntoChunks_closed_form:
  assumes "0 < chunkSize - overlap" and "0 \<le> chunkSize"
  shows "splitIntoChunks text chunkSize overlap =
           Some (map (chunk_at (js_split text) chunkSize)
                  (filter (\<lambda>offset. \<exists>w\<in>set (take (nat chunkSize) (drop (nat offset) (js_split text))). w \<noteq> [])
                     (offsets (int (length (js_split text))) (chunkSize - overlap))))"
proof -
  let ?W = "js_split text"
  let ?offs = "offsets (int (length ?W)) (chunkSize - overlap)"
  have win: "js_slice ?W j (j + chunkSize) = take (nat chunkSize) (drop (nat j) ?W)"
    if "j \<in> set ?offs" for j
    using js_slice_window[of j chunkSize ?W] offsets_nonneg[OF assms(1) that] assms(2) by simp
  have keep: "(trim (join '' '' (js_slice ?W j (j + chunkSize))) \<noteq> []) =
              (\<exists>w\<in>set (take (nat chunkSize) (drop (nat j) ?W)). w \<noteq> [])"
    if "j \<in> set ?offs" for j
  proof -
    have "\<forall>w\<in>set (take (nat chunkSize) (drop (nat j) ?W)). \<forall>c\<in>set w. \<not> is_space c"
      using js_split_no_space[of _ "text"] by (meson in_set_takeD in_set_dropD)
    from keeps_iff_nonempty_word[OF this] show ?thesis by (simp only: win[OF that])
  qed
  have f: "filter (\<lambda>j. trim (join '' '' (js_slice ?W j (j + chunkSize))) \<noteq> []) ?offs =
           filter (\<lambda>j. \<exists>w\<in>set (take (nat chunkSize) (drop (nat j) ?W)). w \<noteq> []) ?offs"
    by (rule filter_cong[OF refl]) (rule keep)
  have m: "map (\<lambda>j. \<lparr>chunk.text' = trim (join '' '' (js_slice ?W j (j + chunkSize))),
                      chunk.startIndex = j,
                      chunk.wordCount = min chunkSize (int (length ?W) - j)\<rparr>) xs =
           map (chunk_at ?W chunkSize) xs" if "set xs \<subseteq> set ?offs" for xs
    using that by (intro map_cong[OF refl]) (auto simp: chunk_at_def win)
  show ?thesis
    unfolding splitIntoChunks_def chunkLoop_unroll[OF assms(1)] offsets_from_zero[OF assms(1)] f
    by (simp add: m)
qed

lemma js_split_replicate:
  "js_split (concat (replicate k ''w '') @ ''w'') = replicate (Suc k) ''w''"
proof (induction k)
  case 0
  show ?case by code_simp
next
  case (Suc k)
  have ns: "\<not> is_space CHR ''w''" by (simp add: is_space_def)
  have hd: "\<exists>r. concat (replicate k ''w '') @ ''w'' = CHR ''w'' # r"
    by (cases k) auto
  then obtain r where r: "concat (replicate k ''w '') @ ''w'' = CHR ''w'' # r" by blast
  have "js_split (concat (replicate (Suc k) ''w '') @ ''w'') =
        ''w'' # js_split (concat (replicate k ''w '') @ ''w'')"
    by (subst js_split_unfold_more) (simp_all add: ns is_space_blank r)
  then show ?case using Suc.IH by simp
qed

lemma last_dropWhile: "dropWhile P xs \<noteq> [] \<Longrightarrow> last (dropWhile P xs) = last xs"
  by (induction xs) (auto split: if_splits)

lemma js_split_words_nonempty:
  assumes "t \<noteq> []" "\<not> is_space (hd t)" "\<not> is_space (last t)"
  shows "\<forall>w\<in>set (js_split t). w \<noteq> []"
  using assms
proof (induction t rule: js_split.induct)
  case (1 s)
  let ?r = "dropWhile (\<lambda>c. \<not> is_space c) s"
  have w: "takeWhile (\<lambda>c. \<not> is_space c) s \<noteq> []"
    using "1.prems" by (cases s) auto
  show ?case
  proof (cases "?r = []")
    case True
    then show ?thesis using w by (simp only: js_split_unfold_last[OF True]) simp
  next
    case False
    let ?rest = "dropWhile is_space ?r"
    have lr: "last ?r = last s" using False by (rule last_dropWhile)
    have "\<not> (\<forall>c\<in>set ?r. is_space c)"
      using False lr "1.prems"(3) last_in_set[OF False] by metis
    then have ne: "?rest \<noteq> []" by (simp only: dropWhile_eq_Nil_conv) simp
    have "\<not> is_space (hd ?rest)" using ne by (rule hd_dropWhile)
    moreover have "last ?rest = last s" using last_dropWhile[OF ne] lr by simp
    ultimately have "\<forall>w\<in>set (js_split ?rest). w \<noteq> []"
      using "1.IH"[OF refl refl False ne] "1.prems"(3) by simp
    then show ?thesis using w by (simp only: js_split_unfold_more[OF False]) simp
  qed
qed

lemma js_split_all_space:
  assumes "\<forall>c\<in>set t. is_space c"
  shows "\<forall>w\<in>set (js_split t). w = []"
proof (cases t)
  case Nil
  then show ?thesis by (simp add: js_split_unfold_last)
next
  case (Cons c cs)
  have d: "dropWhile (\<lambda>c. \<not> is_space c) t = t" using assms Cons by simp
  have tw: "takeWhile (\<lambda>c. \<not> is_space c) t = []" using assms Cons by simp
  have dd: "dropWhile is_space t = []" using assms by simp
  have "js_split t = [] # js_split []"
    using js_split_unfold_more[of t] d tw dd Cons by simp
  then show ?thesis by (simp add: js_split_unfold_last)
qed

lemma count_is_ceiling:
  fixes n s :: int
  assumes "0 < s"
  shows "(n + s - 1) div s = \<lceil>real_of_int n / real_of_int s\<rceil>"
proof -
  let ?m = "(n + s - 1) div s"
  have a: "(?m - 1) * s < n" using mult_less_iff_less_ceil[OF assms, of "?m - 1" n] by simp
  have b: "n \<le> ?m * s" using mult_less_iff_less_ceil[OF assms, of "?m" n] by simp
  have "real_of_int (?m - 1) * real_of_int s < real_of_int n"
    using a by (metis of_int_less_iff of_int_mult)
  then have a': "real_of_int ?m - 1 < real_of_int n / real_of_int s"
    using assms by (simp add: pos_less_divide_eq)
  have "real_of_int n \<le> real_of_int ?m * real_of_int s"
    using b by (metis of_int_le_iff of_int_mult)
  then have b': "real_of_int n / real_of_int s \<le> real_of_int ?m"
    using assms by (simp add: pos_divide_le_eq)
  show ?thesis using ceiling_unique[OF a' b'] by simp
qed

text \<open>
  Claim C1, as the code has it. For a positive stride and a non-negative chunk size the call
  returns, in order, one chunk for every offset \<open>0, stride, 2 * stride, \<dots>\<close> below the
  number \<open>n\<close> of pieces of the split whose window \<open>[offset, min (offset + chunkSize) n)\<close>
  holds a non-empty piece; a window made of empty pieces only (the piece that \<^verbatim>\<open>split\<close>
  leaves after trailing whitespace, or the single piece of an empty text) is dropped. The chunk
  of an offset has that offset as start index, \<open>min chunkSize (n - offset)\<close> as word count and
  the trimmed blank-joined window as text. A text of 560 non-empty words gives, with the
  defaults 500 and 50, the offsets 0 and 450 and the word counts 500 and 110.
\<close>

theorem splitIntoChunks_offsets:
  "(0 < chunkSize - overlap \<and> 0 \<le> chunkSize \<longrightarrow>
      splitIntoChunks text chunkSize overlap =
        Some (map (chunk_at (js_split text) chunkSize)
               (filter (\<lambda>offset. \<exists>w\<in>set (take (nat chunkSize) (drop (nat offset) (js_split text))). w \<noteq> [])
                  (offsets (int (length (js_split text))) (chunkSize - overlap))))
      \<and> set (offsets (int (length (js_split text))) (chunkSize - overlap)) =
          {i. \<exists>k::nat. i = int k * (chunkSize - overlap) \<and> i < int (length (js_split text))})
   \<and> (length (js_split text) = 560 \<and> (\<forall>w\<in>set (js_split text). w \<noteq> []) \<longrightarrow>
        (\<exists>c1 c2. splitIntoChunks text 500 50 = Some [c1, c2]
           \<and> chunk.startIndex c1 = 0 \<and> chunk.wordCount c1 = 500 \<and> chunk.startIndex c2 = 450 \<and> chunk.wordCount c2 = 110))"
proof (intro conjI impI)
  assume a: "0 < chunkSize - overlap \<and> 0 \<le> chunkSize"
  then show "splitIntoChunks text chunkSize overlap =
        Some (map (chunk_at (js_split text) chunkSize)
               (filter (\<lambda>offset. \<exists>w\<in>set (take (nat chunkSize) (drop (nat offset) (js_split text))). w \<noteq> [])
                  (offsets (int (length (js_split text))) (chunkSize - overlap))))"
    by (simp add: splitIntoChunks_closed_form)
  from a show "set (offsets (int (length (js_split text))) (chunkSize - overlap)) =
          {i. \<exists>k::nat. i = int k * (chunkSize - overlap) \<and> i < int (length (js_split text))}"
    by (simp add: set_offsets)
next
  assume h: "length (js_split text) = 560 \<and> (\<forall>w\<in>set (js_split text). w \<noteq> [])"
  let ?W = "js_split text"
  have offs: "offsets (int (length ?W)) (500 - 50) = [0, 450]"
    using h by (simp add: offsets_def upt_conv_Cons)
  have k0: "\<exists>w\<in>set (take (nat 500) (drop (nat 0) ?W)). w \<noteq> []"
  proof -
    have "take (nat 500) (drop (nat 0) ?W) \<noteq> []" using h by auto
    then obtain w where "w \<in> set (take (nat 500) (drop (nat 0) ?W))" by (meson last_in_set)
    moreover then have "w \<in> set ?W" by (meson in_set_takeD in_set_dropD)
    ultimately show ?thesis using h by blast
  qed
  have k1: "\<exists>w\<in>set (take (nat 500) (drop (nat 450) ?W)). w \<noteq> []"
  proof -
    have "take (nat 500) (drop (nat 450) ?W) \<noteq> []" using h by auto
    then obtain w where "w \<in> set (take (nat 500) (drop (nat 450) ?W))" by (meson last_in_set)
    moreover then have "w \<in> set ?W" by (meson in_set_takeD in_set_dropD)
    ultimately show ?thesis using h by blast
  qed
  have "splitIntoChunks text 500 50 = Some [chunk_at ?W 500 0, chunk_at ?W 500 450]"
    using splitIntoChunks_closed_form[of 500 50 "text"] offs k0 k1 by simp
  then show "\<exists>c1 c2. splitIntoChunks text 500 50 = Some [c1, c2]
           \<and> chunk.startIndex c1 = 0 \<and> chunk.wordCount c1 = 500 \<and> chunk.startIndex c2 = 450 \<and> chunk.wordCount c2 = 110"
    using h by (simp add: chunk_at_def)
qed

text \<open>The theorem at concrete inputs.\<close>

theorem splitIntoChunks_offsets_witness:
  "(0::int) < 2 - 1 \<and> (0::int) \<le> 2
   \<and> splitIntoChunks ''the quick brown fox '' 2 1 =
       Some [\<lparr>chunk.text' = ''the quick'', chunk.startIndex = 0, chunk.wordCount = 2\<rparr>,
             \<lparr>chunk.text' = ''quick brown'', chunk.startIndex = 1, chunk.wordCount = 2\<rparr>,
             \<lparr>chunk.text' = ''brown fox'', chunk.startIndex = 2, chunk.wordCount = 2\<rparr>,
             \<lparr>chunk.text' = ''fox'', chunk.startIndex = 3, chunk.wordCount = 2\<rparr>]
   \<and> (\<exists>c1 c2. splitIntoChunks (concat (replicate 559 ''w '') @ ''w'') 500 50 = Some [c1, c2]
           \<and> chunk.startIndex c1 = 0 \<and> chunk.wordCount c1 = 500 \<and> chunk.startIndex c2 = 450 \<and> chunk.wordCount c2 = 110)"
proof -
  have "splitIntoChunks ''the quick brown fox '' 2 1 =
        Some (map (chunk_at (js_split ''the quick brown fox '') 2)
               (filter (\<lambda>offset. \<exists>w\<in>set (take (nat 2) (drop (nat offset) (js_split ''the quick brown fox ''))). w \<noteq> [])
                  (offsets (int (length (js_split ''the quick brown fox ''))) (2 - 1))))"
    using splitIntoChunks_offsets[of 2 1 "''the quick brown fox ''"] by simp
  also have "\<dots> = Some [\<lparr>chunk.text' = ''the quick'', chunk.startIndex = 0, chunk.wordCount = 2\<rparr>,
             \<lparr>chunk.text' = ''quick brown'', chunk.startIndex = 1, chunk.wordCount = 2\<rparr>,
             \<lparr>chunk.text' = ''brown fox'', chunk.startIndex = 2, chunk.wordCount = 2\<rparr>,
             \<lparr>chunk.text' = ''fox'', chunk.startIndex = 3, chunk.wordCount = 2\<rparr>]"
    by code_simp
  finally have 1: "splitIntoChunks ''the quick brown fox '' 2 1 =
       Some [\<lparr>chunk.text' = ''the quick'', chunk.startIndex = 0, chunk.wordCount = 2\<rparr>,
             \<lparr>chunk.text' = ''quick brown'', chunk.startIndex = 1, chunk.wordCount = 2\<rparr>,
             \<lparr>chunk.text' = ''brown fox'', chunk.startIndex = 2, chunk.wordCount = 2\<rparr>,
             \<lparr>chunk.text' = ''fox'', chunk.startIndex = 3, chunk.wordCount = 2\<rparr>]" .
  have w: "js_split (concat (replicate 559 ''w '') @ ''w'') = replicate 560 ''w''"
    using js_split_replicate[of 559] by simp
  have 2: "\<exists>c1 c2. splitIntoChunks (concat (replicate 559 ''w '') @ ''w'') 500 50 = Some [c1, c2]
           \<and> chunk.startIndex c1 = 0 \<and> chunk.wordCount c1 = 500 \<and> chunk.startIndex c2 = 450 \<and> chunk.wordCount c2 = 110"
  proof -
    have hyp: "length (js_split (concat (replicate 559 ''w '') @ ''w'')) = 560 \<and>
               (\<forall>v\<in>set (js_split (concat (replicate 559 ''w '') @ ''w'')). v \<noteq> [])"
      by (simp add: w)
    from splitIntoChunks_offsets[of 500 50 "concat (replicate 559 ''w '') @ ''w''", THEN conjunct2] hyp
    show ?thesis by blast
  qed
  show ?thesis using 1 2 by simp
qed

text \<open>
  A text that ends in whitespace: the split has three pieces, the offsets 0 and 2 are below
  three, and only the chunk at offset 0 is returned. And a negative chunk size with a positive
  stride: \<^verbatim>\<open>slice\<close> counts a negative end from the end of the list, so the window at
  offset 0 holds two words, the other two windows are empty, and the word count is -1.
\<close>

theorem splitIntoChunks_offsets_counterexample:
  "length (js_split ''a b '') = 3 \<and> (0::int) < 2 - 0
   \<and> offsets 3 (2 - 0) = [0, 2]
   \<and> splitIntoChunks ''a b '' 2 0 = Some [\<lparr>chunk.text' = ''a b'', chunk.startIndex = 0, chunk.wordCount = 2\<rparr>]
   \<and> length (js_split ''a b c'') = 3 \<and> (0::int) < - 1 - (- 2)
   \<and> splitIntoChunks ''a b c'' (- 1) (- 2) =
       Some [\<lparr>chunk.text' = ''a b'', chunk.startIndex = 0, chunk.wordCount = - 1\<rparr>]"
  by code_simp

lemma set_js_slice_subset: "set (js_slice xs a b) \<subseteq> set xs"
  unfolding js_slice_def Let_def
  by (meson set_take_subset set_drop_subset subset_trans)

lemma offsets_below: "0 < s \<Longrightarrow> j \<in> set (offsets n s) \<Longrightarrow> j < n"
  using set_offsets[of s n] by auto

lemma length_offsets: "length (offsets n s) = nat ((n + s - 1) div s)"
  by (simp add: offsets_def)

text \<open>
  Claim C2, as the code has it. The code validates nothing and raises nothing: when the overlap
  is at least the chunk size the loop index never reaches the number of pieces (which is at
  least one for every text), so the call never returns a chunk sequence.
\<close>

theorem splitIntoChunks_nonpositive_stride:
  "chunkSize \<le> overlap \<Longrightarrow> splitIntoChunks text chunkSize overlap = None"
proof -
  assume "chunkSize \<le> overlap"
  moreover have "0 < int (length (js_split text))" using js_split_nonempty[of "text"] by simp
  ultimately show ?thesis
    unfolding splitIntoChunks_def by (intro chunkLoop_diverges) simp_all
qed

text \<open>The theorem at a concrete input.\<close>

theorem splitIntoChunks_nonpositive_stride_witness:
  "(2::int) \<le> 5 \<and> splitIntoChunks ''a b c'' 2 5 = None"
  using splitIntoChunks_nonpositive_stride[of 2 5 "''a b c''"] by simp

text \<open>
  With chunk size and overlap both 50 and the one-word text, one turn of the loop leads back to
  the same index with one more chunk collected: the call does not end, neither with a result
  nor with an error.
\<close>

theorem splitIntoChunks_nonpositive_stride_counterexample:
  "(50::int) \<le> 50
   \<and> chunkLoop [''a''] 50 50 0 [] =
       chunkLoop [''a''] 50 50 0 [\<lparr>chunk.text' = ''a'', startIndex = 0, wordCount = 1\<rparr>]
   \<and> splitIntoChunks ''a'' 50 50 = None"
proof -
  have "chunkLoop [''a''] 50 50 0 [] =
       chunkLoop [''a''] 50 50 0 [\<lparr>chunk.text' = ''a'', startIndex = 0, wordCount = 1\<rparr>]"
    by (subst chunkLoop.simps) (simp add: js_slice_def trim_def is_space_def Let_def)
  moreover have "splitIntoChunks ''a'' 50 50 = None"
    unfolding splitIntoChunks_def
    by (rule chunkLoop_diverges) (simp_all add: js_split_nonempty)
  ultimately show ?thesis by simp
qed

text \<open>
  Claim C3, as the code has it. With a positive stride, the loop visits every offset below the
  number \<open>n\<close> of pieces, so a text without leading or trailing whitespace (all its pieces are
  words) and a chunk size of at least one give exactly \<open>\<lceil>n / stride\<rceil>\<close> chunks; an empty or
  blank text gives none; and no text gives more than \<open>\<lceil>n / stride\<rceil>\<close>.
\<close>

theorem splitIntoChunks_count:
  "(0 < chunkSize - overlap \<and> 1 \<le> chunkSize
      \<and> text \<noteq> [] \<and> \<not> is_space (hd text) \<and> \<not> is_space (last text) \<longrightarrow>
      (\<exists>chunks. splitIntoChunks text chunkSize overlap = Some chunks
         \<and> int (length chunks) =
             \<lceil>real (length (js_split text)) / real_of_int (chunkSize - overlap)\<rceil>))
   \<and> (0 < chunkSize - overlap \<and> (\<forall>c\<in>set text. is_space c) \<longrightarrow>
        splitIntoChunks text chunkSize overlap = Some [])
   \<and> (0 < chunkSize - overlap \<longrightarrow>
        (\<exists>chunks. splitIntoChunks text chunkSize overlap = Some chunks
           \<and> int (length chunks) \<le>
               \<lceil>real (length (js_split text)) / real_of_int (chunkSize - overlap)\<rceil>))"
proof (intro conjI impI)
  let ?W = "js_split text"
  let ?n = "int (length ?W)"
  let ?s = "chunkSize - overlap"
  assume a: "0 < ?s \<and> 1 \<le> chunkSize \<and> text \<noteq> [] \<and> \<not> is_space (hd text) \<and> \<not> is_space (last text)"
  then have ne: "\<forall>w\<in>set ?W. w \<noteq> []" using js_split_words_nonempty[of "text"] by blast
  have keep: "\<exists>w\<in>set (take (nat chunkSize) (drop (nat j) ?W)). w \<noteq> []"
    if "j \<in> set (offsets ?n ?s)" for j
  proof -
    have "0 \<le> j" "j < ?n" using that a offsets_nonneg offsets_below by blast+
    then have "take (nat chunkSize) (drop (nat j) ?W) \<noteq> []" using a by auto
    then obtain w where w: "w \<in> set (take (nat chunkSize) (drop (nat j) ?W))"
      by (meson last_in_set)
    then have "w \<in> set ?W" by (meson in_set_takeD in_set_dropD)
    with ne w show ?thesis by blast
  qed
  then have f: "filter (\<lambda>j. \<exists>w\<in>set (take (nat chunkSize) (drop (nat j) ?W)). w \<noteq> []) (offsets ?n ?s)
             = offsets ?n ?s"
    by (simp add: filter_id_conv)
  have pos: "0 \<le> (?n + ?s - 1) div ?s"
    using a by (simp add: pos_imp_zdiv_nonneg_iff)
  have "splitIntoChunks text chunkSize overlap = Some (map (chunk_at ?W chunkSize) (offsets ?n ?s))"
    using splitIntoChunks_closed_form[of chunkSize overlap "text"] a f by simp
  moreover have "int (length (map (chunk_at ?W chunkSize) (offsets ?n ?s))) =
                 \<lceil>real (length ?W) / real_of_int ?s\<rceil>"
    using count_is_ceiling[of ?s ?n] a pos by (simp add: length_offsets)
  ultimately show "\<exists>chunks. splitIntoChunks text chunkSize overlap = Some chunks
         \<and> int (length chunks) = \<lceil>real (length ?W) / real_of_int ?s\<rceil>"
    by blast
next
  let ?W = "js_split text"
  assume a: "0 < chunkSize - overlap \<and> (\<forall>c\<in>set text. is_space c)"
  then have e: "\<forall>w\<in>set ?W. w = []" using js_split_all_space[of "text"] by blast
  have "trim (join '' '' (js_slice ?W j (j + chunkSize))) = []" for j
  proof -
    have "\<forall>w\<in>set (js_slice ?W j (j + chunkSize)). w = []"
      using e set_js_slice_subset[of ?W j "j + chunkSize"] by blast
    then have "\<forall>w\<in>set (js_slice ?W j (j + chunkSize)). \<forall>c\<in>set w. is_space c"
      by fastforce
    then show ?thesis by (simp only: trim_empty_iff join_all_space_iff)
  qed
  then show "splitIntoChunks text chunkSize overlap = Some []"
    using a by (simp add: splitIntoChunks_def chunkLoop_unroll)
next
  let ?W = "js_split text"
  let ?n = "int (length ?W)"
  let ?s = "chunkSize - overlap"
  assume a: "0 < ?s"
  let ?offs = "filter (\<lambda>j. trim (join '' '' (js_slice ?W j (j + chunkSize))) \<noteq> []) (offsets ?n ?s)"
  have "length ?offs \<le> length (offsets ?n ?s)" by (rule length_filter_le)
  then have "length ?offs \<le> nat ((?n + ?s - 1) div ?s)"
    by (simp only: length_offsets)
  moreover have "0 \<le> (?n + ?s - 1) div ?s"
    using a by (simp add: pos_imp_zdiv_nonneg_iff)
  ultimately have "int (length ?offs) \<le> (?n + ?s - 1) div ?s" by linarith
  then have "int (length ?offs) \<le> \<lceil>real (length ?W) / real_of_int ?s\<rceil>"
    using count_is_ceiling[of ?s ?n] a by simp
  then show "\<exists>chunks. splitIntoChunks text chunkSize overlap = Some chunks
           \<and> int (length chunks) \<le> \<lceil>real (length ?W) / real_of_int ?s\<rceil>"
    using a by (simp add: splitIntoChunks_def chunkLoop_unroll offsets_from_zero)
qed

text \<open>The theorem at concrete inputs.\<close>

theorem splitIntoChunks_count_witness:
  "(0::int) < 2 - 1 \<and> (1::int) \<le> 2 \<and> ''a b c'' \<noteq> []
   \<and> \<not> is_space (hd ''a b c'') \<and> \<not> is_space (last ''a b c'')
   \<and> length (js_split ''a b c'') = 3
   \<and> (\<exists>chunks. splitIntoChunks ''a b c'' 2 1 = Some chunks \<and> int (length chunks) = 3)
   \<and> list_all is_space '' '' \<and> splitIntoChunks '' '' 2 1 = Some []"
proof -
  have h: "''a b c'' \<noteq> [] \<and> \<not> is_space (hd ''a b c'') \<and> \<not> is_space (last ''a b c'')"
    by (simp add: is_space_def)
  have n: "length (js_split ''a b c'') = 3" by code_simp
  have "\<exists>chunks. splitIntoChunks ''a b c'' 2 1 = Some chunks
         \<and> int (length chunks) = \<lceil>real (length (js_split ''a b c'')) / real_of_int (2 - 1)\<rceil>"
    using splitIntoChunks_count[of 2 1 "''a b c''", THEN conjunct1] h by simp
  then have 1: "\<exists>chunks. splitIntoChunks ''a b c'' 2 1 = Some chunks \<and> int (length chunks) = 3"
    by (simp add: n)
  have s: "\<forall>c\<in>set '' ''. is_space c" by (simp add: is_space_def)
  have 2: "splitIntoChunks '' '' 2 1 = Some []"
    using splitIntoChunks_count[of 2 1 "'' ''", THEN conjunct2, THEN conjunct1] s by simp
  have l: "list_all is_space '' ''" by (simp add: is_space_def)
  show ?thesis using h n 1 l 2 by simp
qed

text \<open>
  Three words with chunk size 2 and overlap 1: three chunks, the last one inside the second,
  where the formula \<open>\<lceil>(n - overlap) / stride\<rceil>\<close> gives two.
\<close>

theorem splitIntoChunks_count_counterexample:
  "length (js_split ''a b c'') = 3 \<and> (0::int) < 2 - 1 \<and> (1::int) < 3
   \<and> splitIntoChunks ''a b c'' 2 1 =
       Some [\<lparr>chunk.text' = ''a b'', startIndex = 0, wordCount = 2\<rparr>,
             \<lparr>chunk.text' = ''b c'', startIndex = 1, wordCount = 2\<rparr>,
             \<lparr>chunk.text' = ''c'', startIndex = 2, wordCount = 1\<rparr>]
   \<and> \<lceil>(3 - 1) / (2 - 1) :: real\<rceil> = (2::int)"
proof -
  have "length (js_split ''a b c'') = 3 \<and> (0::int) < 2 - 1 \<and> (1::int) < 3
   \<and> splitIntoChunks ''a b c'' 2 1 =
       Some [\<lparr>chunk.text' = ''a b'', startIndex = 0, wordCount = 2\<rparr>,
             \<lparr>chunk.text' = ''b c'', startIndex = 1, wordCount = 2\<rparr>,
             \<lparr>chunk.text' = ''c'', startIndex = 2, wordCount = 1\<rparr>]"
    by code_simp
  moreover have "\<lceil>(3 - 1) / (2 - 1) :: real\<rceil> = (2::int)" by simp
  ultimately show ?thesis by blast
qed

section \<open>Properties of the search\<close>

lemma analyse_fold:
  "fold (\<lambda>word (textMatches, hasDirectMatch).
             if length word > 2 \<and> includes_str text word
             then (textMatches @ [word], True)
             else (textMatches, hasDirectMatch)) ws (acc, flag) =
   (acc @ filter (\<lambda>w. length w > 2 \<and> includes_str text w) ws,
    flag \<or> filter (\<lambda>w. length w > 2 \<and> includes_str text w) ws \<noteq> [])"
  by (induction ws arbitrary: acc flag) auto

lemma analyseTextMatches_eq:
  "analyseTextMatches text ws =
     (filter (\<lambda>w. length w > 2 \<and> includes_str text w) ws,
      filter (\<lambda>w. length w > 2 \<and> includes_str text w) ws \<noteq> [])"
  unfolding analyseTextMatches_def by (simp add: analyse_fold)

lemma processResult_lexical:
  "textMatches (processResult query True result) =
     Some (filter (\<lambda>w. length w > 2 \<and> includes_str (toLowerCase (metadata.text' (metadata (item result)))) w)
             (js_split (toLowerCase query)))"
  "hasDirectMatch (processResult query True result) =
     Some (filter (\<lambda>w. length w > 2 \<and> includes_str (toLowerCase (metadata.text' (metadata (item result)))) w)
             (js_split (toLowerCase query)) \<noteq> [])"
  "textMatchScore (processResult query True result) =
     Some (real (length (filter (\<lambda>w. length w > 2 \<and> includes_str (toLowerCase (metadata.text' (metadata (item result)))) w)
             (js_split (toLowerCase query)))) / real (length (js_split query)))"
  "search_result.score (processResult query b result) = query_result.score result"
  by (simp_all add: processResult_def analyseTextMatches_eq Let_def)

lemma search_Inr:
  assumes "search env eng query topK includeTextMatches minScore = (Inr res, eng')"
  shows "\<exists>emb results. generateEmbedding env query = Inr emb
           \<and> queryItems env emb (max (topK * 3) 50) = Inr results
           \<and> res = finalResults query topK includeTextMatches minScore results"
  using assms unfolding search_def by (auto split: sum.splits)

lemma js_slice_prefix: "js_slice xs 0 k = take (nat (if k < 0 then max (int (length xs) + k) 0 else min k (int (length xs)))) xs"
  by (simp add: js_slice_def Let_def)

lemma set_insort_cmp: "set (insort_cmp c x ys) = insert x (set ys)"
  by (induction ys) auto

lemma mset_insort_cmp: "mset (insort_cmp c x ys) = add_mset x (mset ys)"
  by (induction ys) auto

lemma mset_js_sort: "mset (js_sort c xs) = mset xs"
  unfolding js_sort_def by (induction xs) (auto simp: mset_insort_cmp)

lemma set_js_sort: "set (js_sort c xs) = set xs"
  using mset_js_sort[of c xs] by (metis set_mset_mset)

lemma sorted_insort_cmp:
  assumes total: "\<And>a b. a \<in> A \<Longrightarrow> b \<in> A \<Longrightarrow> \<not> c a b \<le> 0 \<Longrightarrow> c b a \<le> 0"
      and trans: "\<And>a b d. a \<in> A \<Longrightarrow> b \<in> A \<Longrightarrow> d \<in> A \<Longrightarrow> c a b \<le> 0 \<Longrightarrow> c b d \<le> 0 \<Longrightarrow> c a d \<le> 0"
      and "x \<in> A" "set ys \<subseteq> A" "sorted_wrt (\<lambda>a b. c a b \<le> 0) ys"
  shows "sorted_wrt (\<lambda>a b. c a b \<le> 0) (insort_cmp c x ys)"
  using assms(3-)
proof (induction ys)
  case Nil
  then show ?case by simp
next
  case (Cons y ys)
  show ?case
  proof (cases "c x y \<le> 0")
    case True
    have "\<forall>z\<in>set ys. c x z \<le> 0"
      using Cons.prems True trans[of x y] by auto
    with True Cons.prems show ?thesis by simp
  next
    case False
    then have yx: "c y x \<le> 0" using total[of x y] Cons.prems by auto
    have "sorted_wrt (\<lambda>a b. c a b \<le> 0) (insort_cmp c x ys)"
      using Cons by simp
    with False yx Cons.prems show ?thesis by (auto simp: set_insort_cmp)
  qed
qed

lemma sorted_js_sort:
  assumes total: "\<And>a b. a \<in> A \<Longrightarrow> b \<in> A \<Longrightarrow> \<not> c a b \<le> 0 \<Longrightarrow> c b a \<le> 0"
      and trans: "\<And>a b d. a \<in> A \<Longrightarrow> b \<in> A \<Longrightarrow> d \<in> A \<Longrightarrow> c a b \<le> 0 \<Longrightarrow> c b d \<le> 0 \<Longrightarrow> c a d \<le> 0"
      and "set xs \<subseteq> A"
  shows "sorted_wrt (\<lambda>a b. c a b \<le> 0) (js_sort c xs)"
  using assms(3)
proof (induction xs)
  case Nil
  then show ?case by (simp add: js_sort_def)
next
  case (Cons x xs)
  have "set (js_sort c xs) \<subseteq> A" using Cons.prems by (simp add: set_js_sort)
  moreover have "sorted_wrt (\<lambda>a b. c a b \<le> 0) (js_sort c xs)" using Cons by simp
  moreover have "x \<in> A" using Cons.prems by simp
  ultimately have "sorted_wrt (\<lambda>a b. c a b \<le> 0) (insort_cmp c x (js_sort c xs))"
    by (intro sorted_insort_cmp[where A = A and c = c, OF total trans])
  then show ?case by (simp add: js_sort_def)
qed

lemma compareFn_key_ge:
  assumes "complete a" "complete b"
  shows "compareFn a b \<le> 0 \<longleftrightarrow> key_ge a b"
  using assms
  by (auto simp: compareFn_def key_ge_def complete_def Let_def split: option.splits)

lemma key_ge_total: "\<not> key_ge a b \<Longrightarrow> key_ge b a"
  by (auto simp: key_ge_def Let_def)

lemma key_ge_trans: "key_ge a b \<Longrightarrow> key_ge b d \<Longrightarrow> key_ge a d"
  unfolding key_ge_def Let_def by (elim disjE conjE) auto

lemma complete_processResult: "complete (processResult query True result)"
  by (simp add: complete_def processResult_lexical)

lemma set_filteredResults: "set (filteredResults minScore rs) \<subseteq> set rs"
  by (auto simp: filteredResults_def)

lemma sorted_js_sort_compareFn:
  assumes "\<forall>r\<in>set xs. complete r"
  shows "sorted_wrt key_ge (js_sort compareFn xs)"
proof -
  have "sorted_wrt (\<lambda>a b. compareFn a b \<le> 0) (js_sort compareFn xs)"
  proof (rule sorted_js_sort[where A = "{r. complete r}"])
    fix a b assume "a \<in> {r. complete r}" "b \<in> {r. complete r}" "\<not> compareFn a b \<le> 0"
    then show "compareFn b a \<le> 0"
      using compareFn_key_ge[of a b] compareFn_key_ge[of b a] key_ge_total[of a b] by simp
  next
    fix a b d
    assume "a \<in> {r. complete r}" "b \<in> {r. complete r}" "d \<in> {r. complete r}"
      "compareFn a b \<le> 0" "compareFn b d \<le> 0"
    then show "compareFn a d \<le> 0"
      using compareFn_key_ge[of a b] compareFn_key_ge[of b d] compareFn_key_ge[of a d]
        key_ge_trans[of a b d] by simp
  next
    show "set xs \<subseteq> {r. complete r}" using assms by auto
  qed
  moreover have "\<forall>r\<in>set (js_sort compareFn xs). complete r"
    using assms by (simp add: set_js_sort)
  ultimately show ?thesis
    by (rule_tac sorted_wrt_mono_rel[where P = "\<lambda>a b. compareFn a b \<le> 0"])
       (auto simp: compareFn_key_ge)
qed

lemma key_ge_direct: "key_ge a b \<Longrightarrow> hasDirectMatch b = Some True \<Longrightarrow> hasDirectMatch a = Some True"
  by (auto simp: key_ge_def Let_def)

lemma subseq_js_slice_prefix: "subseq (js_slice xs 0 k) xs"
  unfolding js_slice_prefix by (metis append_take_drop_id list_emb_prefix subseq_order.order_refl)

lemma subseq_filteredResults: "subseq (filteredResults m xs) xs"
  by (simp add: filteredResults_def)

lemma length_js_slice_prefix:
  "length (js_slice xs 0 k) = (if k < 0 then length xs - nat (- k) else min (nat k) (length xs))"
  by (auto simp: js_slice_prefix)

lemma mset_sortedResults: "mset (sortedResults itm xs) = mset xs"
  by (simp add: sortedResults_def mset_js_sort)

lemma length_sortedResults: "length (sortedResults itm xs) = length xs"
  using mset_sortedResults[of itm xs] by (rule mset_eq_length)

lemma score_processedResults:
  "map search_result.score (processedResults query itm results) = map query_result.score results"
  by (simp add: processedResults_def processResult_lexical(4) comp_def)

text \<open>
  Claim C4, as the code has it. The filter runs only for a positive \<open>minScore\<close>: then no
  returned result has a score below it, and the filter comes before the truncation, so the
  number of results is what \<^verbatim>\<open>slice(0, topK)\<close> leaves of all candidates that reach the
  minimum. For a \<open>minScore\<close> that is zero or negative nothing is filtered: the result is
  what \<^verbatim>\<open>slice(0, topK)\<close> leaves of all candidates, whatever their scores.
\<close>

theorem search_minScore_filter:
  assumes "search env eng query topK includeTextMatches minScore = (Inr res, eng')"
  shows "(0 < minScore \<longrightarrow>
            (\<forall>r\<in>set res. \<not> search_result.score r < minScore)
          \<and> (\<exists>emb results.
                generateEmbedding env query = Inr emb
              \<and> queryItems env emb (max (topK * 3) 50) = Inr results
              \<and> length res =
                  (if topK < 0
                   then length (filter (\<lambda>c. minScore \<le> query_result.score c) results) - nat (- topK)
                   else min (nat topK) (length (filter (\<lambda>c. minScore \<le> query_result.score c) results)))))
         \<and> (minScore \<le> 0 \<longrightarrow>
            (\<exists>emb results.
                generateEmbedding env query = Inr emb
              \<and> queryItems env emb (max (topK * 3) 50) = Inr results
              \<and> res = js_slice (sortedResults includeTextMatches
                                  (processedResults query includeTextMatches results)) 0 topK
              \<and> mset (map search_result.score
                        (sortedResults includeTextMatches
                           (processedResults query includeTextMatches results))) =
                  mset (map query_result.score results)
              \<and> length res =
                  (if topK < 0 then length results - nat (- topK)
                   else min (nat topK) (length results))))"
proof -
  from search_Inr[OF assms] obtain emb results where
    e: "generateEmbedding env query = Inr emb"
    and q: "queryItems env emb (max (topK * 3) 50) = Inr results"
    and r: "res = finalResults query topK includeTextMatches minScore results" by blast
  let ?P = "processedResults query includeTextMatches results"
  let ?F = "filteredResults minScore ?P"
  let ?S = "sortedResults includeTextMatches ?F"
  have pos: "(\<forall>r\<in>set res. \<not> search_result.score r < minScore)
          \<and> length res =
                  (if topK < 0
                   then length (filter (\<lambda>c. minScore \<le> query_result.score c) results) - nat (- topK)
                   else min (nat topK) (length (filter (\<lambda>c. minScore \<le> query_result.score c) results)))"
    if m: "0 < minScore"
  proof -
    have F: "?F = filter (\<lambda>r. minScore \<le> search_result.score r) ?P"
      using m by (simp add: filteredResults_def)
    have setS: "set ?S = set ?F" by (simp add: sortedResults_def set_js_sort)
    have "set res \<subseteq> set ?S" unfolding r finalResults_def by (rule set_js_slice_subset)
    then have "set res \<subseteq> set ?F" by (simp only: setS)
    then have "set res \<subseteq> set (filter (\<lambda>r. minScore \<le> search_result.score r) ?P)"
      by (simp only: F)
    then have 1: "\<forall>r\<in>set res. \<not> search_result.score r < minScore"
      by auto
    have "length ?S = length ?F" by (rule length_sortedResults)
    also have "\<dots> = length (filter (\<lambda>c. minScore \<le> query_result.score c) results)"
      using m
      by (simp add: filteredResults_def processedResults_def filter_map comp_def
          processResult_lexical(4))
    finally have "length res =
        (if topK < 0
         then length (filter (\<lambda>c. minScore \<le> query_result.score c) results) - nat (- topK)
         else min (nat topK) (length (filter (\<lambda>c. minScore \<le> query_result.score c) results)))"
      unfolding r finalResults_def by (simp add: length_js_slice_prefix)
    with 1 show ?thesis by blast
  qed
  have npos: "res = js_slice (sortedResults includeTextMatches ?P) 0 topK
              \<and> mset (map search_result.score (sortedResults includeTextMatches ?P)) =
                  mset (map query_result.score results)
              \<and> length res =
                  (if topK < 0 then length results - nat (- topK)
                   else min (nat topK) (length results))"
    if m: "minScore \<le> 0"
  proof -
    have F: "?F = ?P" using m by (simp add: filteredResults_def)
    have 1: "res = js_slice (sortedResults includeTextMatches ?P) 0 topK"
      unfolding r finalResults_def by (simp only: F)
    have "mset (map search_result.score (sortedResults includeTextMatches ?P)) =
          image_mset search_result.score (mset (sortedResults includeTextMatches ?P))"
      by simp
    also have "\<dots> = image_mset search_result.score (mset ?P)"
      by (simp only: mset_sortedResults)
    also have "\<dots> = mset (map search_result.score ?P)" by simp
    also have "\<dots> = mset (map query_result.score results)"
      by (simp only: score_processedResults)
    finally have 2: "mset (map search_result.score (sortedResults includeTextMatches ?P)) =
                  mset (map query_result.score results)" .
    have "length (sortedResults includeTextMatches ?P) = length results"
      by (simp add: length_sortedResults processedResults_def)
    then have 3: "length res =
                  (if topK < 0 then length results - nat (- topK)
                   else min (nat topK) (length results))"
      unfolding 1 by (simp add: length_js_slice_prefix)
    from 1 2 3 show ?thesis by blast
  qed
  from pos npos e q show ?thesis by blast
qed

lemma search_example_env:
  "search (example_env cands) engine0 query topK itm minScore =
     (Inr (finalResults query topK itm minScore (js_slice cands 0 (max (topK * 3) 50))),
      engine0\<lparr>isInitialized := True\<rparr>)"
  by (simp add: search_def initialize_def generateEmbedding_def example_env_def engine0_def)

text \<open>
  The theorem at concrete inputs: with the minimum one half, of two candidates the one below
  it is dropped; with the minimum -1 the candidate with score -2 is returned.
\<close>

theorem search_minScore_filter_witness:
  "(0::real) < 1 / 2
   \<and> list_all (\<lambda>r. \<not> search_result.score r < 1 / 2)
        (finalResults ''login'' 5 False (1 / 2)
           [\<lparr>query_result.score = 9 / 10, item = example_item ''a.txt'' ''user login''\<rparr>,
            \<lparr>query_result.score = 3 / 10, item = example_item ''b.txt'' ''logout''\<rparr>])
   \<and> map search_result.score
        (finalResults ''login'' 5 False (1 / 2)
           [\<lparr>query_result.score = 9 / 10, item = example_item ''a.txt'' ''user login''\<rparr>,
            \<lparr>query_result.score = 3 / 10, item = example_item ''b.txt'' ''logout''\<rparr>]) = [9 / 10]
   \<and> (- 1::real) \<le> 0
   \<and> length (finalResults ''login'' 5 False (- 1)
           [\<lparr>query_result.score = - 2, item = example_item ''a.txt'' ''user login''\<rparr>,
            \<lparr>query_result.score = 3 / 10, item = example_item ''b.txt'' ''logout''\<rparr>]) = 2
   \<and> map search_result.score
        (finalResults ''login'' 5 False (- 1)
           [\<lparr>query_result.score = - 2, item = example_item ''a.txt'' ''user login''\<rparr>,
            \<lparr>query_result.score = 3 / 10, item = example_item ''b.txt'' ''logout''\<rparr>]) = [- 2, 3 / 10]"
proof -
  let ?c = "[\<lparr>query_result.score = 9 / 10, item = example_item ''a.txt'' ''user login''\<rparr>,
            \<lparr>query_result.score = 3 / 10, item = example_item ''b.txt'' ''logout''\<rparr>]"
  let ?res = "finalResults ''login'' 5 False (1 / 2) (js_slice ?c 0 (max (5 * 3) 50))"
  have s: "search (example_env ?c) engine0 ''login'' 5 False (1 / 2) =
          (Inr ?res, engine0\<lparr>isInitialized := True\<rparr>)"
    by (rule search_example_env)
  have sl: "js_slice ?c 0 (max (5 * 3) 50) = ?c" by (simp add: js_slice_def)
  have "list_all (\<lambda>r. \<not> search_result.score r < 1 / 2) ?res"
    using search_minScore_filter[OF s] by (simp add: list_all_iff)
  moreover have "map search_result.score ?res = [9 / 10]"
    unfolding sl
    by (simp add: finalResults_def sortedResults_def filteredResults_def processedResults_def
        processResult_lexical js_slice_def)
  ultimately have A: "list_all (\<lambda>r. \<not> search_result.score r < 1 / 2)
        (finalResults ''login'' 5 False (1 / 2) ?c)
     \<and> map search_result.score (finalResults ''login'' 5 False (1 / 2) ?c) = [9 / 10]"
    unfolding sl by simp
  let ?d = "[\<lparr>query_result.score = - 2, item = example_item ''a.txt'' ''user login''\<rparr>,
            \<lparr>query_result.score = 3 / 10, item = example_item ''b.txt'' ''logout''\<rparr>]"
  let ?res' = "finalResults ''login'' 5 False (- 1) (js_slice ?d 0 (max (5 * 3) 50))"
  have s': "search (example_env ?d) engine0 ''login'' 5 False (- 1) =
          (Inr ?res', engine0\<lparr>isInitialized := True\<rparr>)"
    by (rule search_example_env)
  have sl': "js_slice ?d 0 (max (5 * 3) 50) = ?d" by (simp add: js_slice_def)
  have q: "queryItems (example_env ?d) emb k = Inr (js_slice ?d 0 k)" for emb k
    by (simp add: example_env_def)
  from search_minScore_filter[OF s', THEN conjunct2] obtain emb results where
    "queryItems (example_env ?d) emb (max (5 * 3) 50) = Inr results"
    and l: "length ?res' = (if (5::int) < 0 then length results - nat (- 5) else min (nat 5) (length results))"
    by auto
  then have "results = ?d" by (simp add: q js_slice_def)
  then have B: "length ?res' = 2" using l by simp
  have C: "map search_result.score ?res' = [- 2, 3 / 10]"
    unfolding sl'
    by (simp add: finalResults_def sortedResults_def filteredResults_def processedResults_def
        processResult_lexical js_slice_def)
  from A B C show ?thesis unfolding sl' by simp
qed

text \<open>
  With the default \<open>minScore = 0\<close> nothing is filtered: a candidate with a negative
  similarity is returned.
\<close>

theorem search_minScore_filter_counterexample:
  "fst (search (example_env [\<lparr>query_result.score = - 1 / 10, item = example_item ''a.txt'' ''user login''\<rparr>])
          engine0 ''login'' 5 False 0) =
     Inr (finalResults ''login'' 5 False 0
            [\<lparr>query_result.score = - 1 / 10, item = example_item ''a.txt'' ''user login''\<rparr>])
   \<and> map search_result.score
        (finalResults ''login'' 5 False 0
           [\<lparr>query_result.score = - 1 / 10, item = example_item ''a.txt'' ''user login''\<rparr>]) = [- 1 / 10]
   \<and> (- 1 / 10 :: real) < 0"
  by (simp add: search_example_env finalResults_def sortedResults_def filteredResults_def
        processedResults_def processResult_lexical js_slice_def)

text \<open>
  Claim C5. With \<open>includeTextMatches\<close>, what \<open>search\<close> returns is the first \<open>topK\<close> of a
  reordering of the filtered candidates that descends in the composite key, so no result
  without a direct match stands before one with a direct match. Without it, the result is a
  prefix of the filtered candidates in the order of the store.
\<close>

theorem search_hybrid_ordering:
  "(search env eng query topK True minScore = (Inr res, eng') \<longrightarrow>
      sorted_wrt key_ge res
    \<and> (\<forall>i j. i < j \<and> j < length res \<and> hasDirectMatch (res ! j) = Some True \<longrightarrow>
          hasDirectMatch (res ! i) = Some True)
    \<and> (\<exists>emb results ordered.
          generateEmbedding env query = Inr emb
        \<and> queryItems env emb (max (topK * 3) 50) = Inr results
        \<and> mset ordered = mset (filteredResults minScore (processedResults query True results))
        \<and> sorted_wrt key_ge ordered
        \<and> res = js_slice ordered 0 topK))
   \<and> (search env eng query topK False minScore = (Inr res, eng') \<longrightarrow>
        (\<exists>emb results.
            generateEmbedding env query = Inr emb
          \<and> queryItems env emb (max (topK * 3) 50) = Inr results
          \<and> res = js_slice (filteredResults minScore (map (processResult query False) results)) 0 topK
          \<and> subseq res (map (processResult query False) results)))"
proof (intro conjI impI)
  assume s: "search env eng query topK True minScore = (Inr res, eng')"
  from search_Inr[OF s] obtain emb results where
    e: "generateEmbedding env query = Inr emb"
    and q: "queryItems env emb (max (topK * 3) 50) = Inr results"
    and r: "res = finalResults query topK True minScore results" by blast
  let ?F = "filteredResults minScore (processedResults query True results)"
  let ?S = "js_sort compareFn ?F"
  have c: "\<forall>r\<in>set ?F. complete r"
    using set_filteredResults[of minScore "processedResults query True results"]
    by (auto simp: processedResults_def complete_processResult)
  have sorted: "sorted_wrt key_ge ?S" using c by (rule sorted_js_sort_compareFn)
  have res: "res = js_slice ?S 0 topK" by (simp add: r finalResults_def sortedResults_def)
  show 1: "sorted_wrt key_ge res"
    unfolding res js_slice_prefix using sorted by (rule sorted_wrt_take)
  show "\<forall>i j. i < j \<and> j < length res \<and> hasDirectMatch (res ! j) = Some True \<longrightarrow>
          hasDirectMatch (res ! i) = Some True"
    using 1 key_ge_direct by (metis sorted_wrt_iff_nth_less)
  show "\<exists>emb results ordered.
          generateEmbedding env query = Inr emb
        \<and> queryItems env emb (max (topK * 3) 50) = Inr results
        \<and> mset ordered = mset (filteredResults minScore (processedResults query True results))
        \<and> sorted_wrt key_ge ordered
        \<and> res = js_slice ordered 0 topK"
    using e q sorted res mset_js_sort[of compareFn ?F] by blast
next
  assume s: "search env eng query topK False minScore = (Inr res, eng')"
  from search_Inr[OF s] obtain emb results where
    e: "generateEmbedding env query = Inr emb"
    and q: "queryItems env emb (max (topK * 3) 50) = Inr results"
    and r: "res = finalResults query topK False minScore results" by blast
  let ?P = "map (processResult query False) results"
  have res: "res = js_slice (filteredResults minScore ?P) 0 topK"
    by (simp add: r finalResults_def sortedResults_def processedResults_def)
  have "subseq res (filteredResults minScore ?P)" unfolding res by (rule subseq_js_slice_prefix)
  then have "subseq res ?P" using subseq_filteredResults[of minScore ?P]
    by (rule subseq_order.trans)
  with e q res show "\<exists>emb results.
            generateEmbedding env query = Inr emb
          \<and> queryItems env emb (max (topK * 3) 50) = Inr results
          \<and> res = js_slice (filteredResults minScore (map (processResult query False) results)) 0 topK
          \<and> subseq res (map (processResult query False) results)" by blast
qed

text \<open>
  The theorem at a concrete input: three candidates in descending similarity, of which the
  last matches both query words and the second one of them.
\<close>

theorem search_hybrid_ordering_witness:
  "sorted_wrt key_ge
     (finalResults ''user authentication'' 3 True 0
        [\<lparr>query_result.score = 9 / 10, item = example_item ''a.txt'' ''release notes''\<rparr>,
         \<lparr>query_result.score = 8 / 10, item = example_item ''b.txt'' ''the user manual''\<rparr>,
         \<lparr>query_result.score = 7 / 10, item = example_item ''c.txt'' ''User Authentication flow''\<rparr>])
   \<and> map search_result.fileName
       (finalResults ''user authentication'' 3 True 0
        [\<lparr>query_result.score = 9 / 10, item = example_item ''a.txt'' ''release notes''\<rparr>,
         \<lparr>query_result.score = 8 / 10, item = example_item ''b.txt'' ''the user manual''\<rparr>,
         \<lparr>query_result.score = 7 / 10, item = example_item ''c.txt'' ''User Authentication flow''\<rparr>])
       = [''c.txt'', ''b.txt'', ''a.txt'']
   \<and> map search_result.fileName
       (finalResults ''user authentication'' 3 False 0
        [\<lparr>query_result.score = 9 / 10, item = example_item ''a.txt'' ''release notes''\<rparr>,
         \<lparr>query_result.score = 8 / 10, item = example_item ''b.txt'' ''the user manual''\<rparr>,
         \<lparr>query_result.score = 7 / 10, item = example_item ''c.txt'' ''User Authentication flow''\<rparr>])
       = [''a.txt'', ''b.txt'', ''c.txt'']"
proof -
  let ?c = "[\<lparr>query_result.score = 9 / 10, item = example_item ''a.txt'' ''release notes''\<rparr>,
         \<lparr>query_result.score = 8 / 10, item = example_item ''b.txt'' ''the user manual''\<rparr>,
         \<lparr>query_result.score = 7 / 10, item = example_item ''c.txt'' ''User Authentication flow''\<rparr>]"
  have sl: "js_slice ?c 0 (max (3 * 3) 50) = ?c" by (simp add: js_slice_def)
  have s: "search (example_env ?c) engine0 ''user authentication'' 3 True 0 =
          (Inr (finalResults ''user authentication'' 3 True 0 ?c), engine0\<lparr>isInitialized := True\<rparr>)"
    using search_example_env[of ?c "''user authentication''" 3 True 0] by (simp only: sl)
  have 1: "sorted_wrt key_ge (finalResults ''user authentication'' 3 True 0 ?c)"
    using search_hybrid_ordering[THEN conjunct1, rule_format, OF s] by blast
  have q: "js_split (toLowerCase ''user authentication'') = [''user'', ''authentication'']"
    by code_simp
  have q': "js_split ''user authentication'' = [''user'', ''authentication'']"
    by code_simp
  have a: "toLowerCase ''release notes'' = ''release notes''" by code_simp
  have b: "toLowerCase ''the user manual'' = ''the user manual''" by code_simp
  have c: "toLowerCase ''User Authentication flow'' = ''user authentication flow''" by code_simp
  have 2: "map search_result.fileName (finalResults ''user authentication'' 3 True 0 ?c)
       = [''c.txt'', ''b.txt'', ''a.txt'']"
    by (simp add: finalResults_def sortedResults_def filteredResults_def processedResults_def
        js_sort_def compareFn_def processResult_lexical js_slice_def q q' a b c example_item_def
        processResult_def Let_def analyseTextMatches_eq)
  have 3: "map search_result.fileName (finalResults ''user authentication'' 3 False 0 ?c)
       = [''a.txt'', ''b.txt'', ''c.txt'']"
    by (simp add: finalResults_def sortedResults_def filteredResults_def processedResults_def
        js_slice_def example_item_def processResult_def Let_def)
  from 1 2 3 show ?thesis by blast
qed

lemma startsWith_iff: "startsWith s w \<longleftrightarrow> (\<exists>q. s = w @ q)"
  by (induction s w rule: startsWith.induct) auto

lemma includes_str_iff: "includes_str s w \<longleftrightarrow> (\<exists>p q. s = p @ w @ q)"
proof (induction s)
  case Nil
  then show ?case by simp
next
  case (Cons c cs)
  show ?case
  proof
    assume "includes_str (c # cs) w"
    then consider "startsWith (c # cs) w" | "includes_str cs w" by auto
    then show "\<exists>p q. c # cs = p @ w @ q"
    proof cases
      case 1
      then obtain q where "c # cs = w @ q" using startsWith_iff by blast
      then have "c # cs = [] @ w @ q" by simp
      then show ?thesis by blast
    next
      case 2
      then obtain p q where "cs = p @ w @ q" using Cons.IH by blast
      then have "c # cs = (c # p) @ w @ q" by simp
      then show ?thesis by blast
    qed
  next
    assume "\<exists>p q. c # cs = p @ w @ q"
    then obtain p q where pq: "c # cs = p @ w @ q" by blast
    show "includes_str (c # cs) w"
    proof (cases p)
      case Nil
      then have "startsWith (c # cs) w" using pq startsWith_iff by auto
      then show ?thesis by simp
    next
      case (Cons d p')
      then have "cs = p' @ w @ q" using pq by simp
      then have "includes_str cs w" using Cons.IH by blast
      then show ?thesis by simp
    qed
  qed
qed

lemma is_space_of_char:
  "is_space c \<longleftrightarrow> (of_char c :: nat) \<in> {9, 10, 11, 12, 13, 32, 160}"
proof -
  have h: "\<And>d. (c = d) = ((of_char c :: nat) = of_char d)" by simp
  have "is_space c \<longleftrightarrow> (of_char c :: nat) \<in> of_char ` set [CHR 0x09, CHR 0x0A, CHR 0x0B, CHR 0x0C, CHR 0x0D, CHR 0x20, CHR 0xA0]"
    unfolding is_space_def by (auto simp del: of_char_eq_iff simp: h)
  also have "(of_char ` set [CHR 0x09, CHR 0x0A, CHR 0x0B, CHR 0x0C, CHR 0x0D, CHR 0x20, CHR 0xA0] :: nat set)
             = {9, 10, 11, 12, 13, 32, 160}"
    by simp
  finally show ?thesis .
qed

lemma is_space_toLowerCase_char: "is_space (toLowerCase_char c) = is_space c"
proof (cases "(65 \<le> (of_char c :: nat) \<and> (of_char c :: nat) \<le> 90) \<or>
              (192 \<le> (of_char c :: nat) \<and> (of_char c :: nat) \<le> 222 \<and> (of_char c :: nat) \<noteq> 215)")
  case True
  then have "(of_char (char_of ((of_char c :: nat) + 32)) :: nat) = of_char c + 32"
    by (auto simp: take_bit_eq_mod)
  moreover have "toLowerCase_char c = char_of ((of_char c :: nat) + 32)"
    unfolding toLowerCase_char_def Let_def if_P[OF True] ..
  ultimately show ?thesis
    using True unfolding is_space_of_char by auto
next
  case False
  have "toLowerCase_char c = c"
    unfolding toLowerCase_char_def Let_def if_not_P[OF False] ..
  then show ?thesis by simp
qed

lemma js_split_toLowerCase: "js_split (toLowerCase s) = map toLowerCase (js_split s)"
proof (induction s rule: js_split.induct)
  case (1 s)
  have p: "(\<lambda>c. \<not> is_space c) \<circ> toLowerCase_char = (\<lambda>c. \<not> is_space c)"
    by (auto simp: is_space_toLowerCase_char)
  have p': "is_space \<circ> toLowerCase_char = is_space"
    by (auto simp: is_space_toLowerCase_char)
  have tw: "takeWhile (\<lambda>c. \<not> is_space c) (toLowerCase s) = toLowerCase (takeWhile (\<lambda>c. \<not> is_space c) s)"
    unfolding toLowerCase_def by (simp only: takeWhile_map p)
  have dw: "dropWhile (\<lambda>c. \<not> is_space c) (toLowerCase s) = toLowerCase (dropWhile (\<lambda>c. \<not> is_space c) s)"
    unfolding toLowerCase_def by (simp only: dropWhile_map p)
  have dw': "dropWhile is_space (toLowerCase r) = toLowerCase (dropWhile is_space r)" for r
    unfolding toLowerCase_def by (simp only: dropWhile_map p')
  show ?case
  proof (cases "dropWhile (\<lambda>c. \<not> is_space c) s = []")
    case True
    then have "dropWhile (\<lambda>c. \<not> is_space c) (toLowerCase s) = []"
      by (simp only: dw) (simp add: toLowerCase_def)
    then show ?thesis
      by (simp only: js_split_unfold_last[OF True] js_split_unfold_last tw) simp
  next
    case False
    then have ne: "dropWhile (\<lambda>c. \<not> is_space c) (toLowerCase s) \<noteq> []"
      by (simp only: dw) (simp add: toLowerCase_def)
    show ?thesis
      using "1.IH"[OF refl refl False]
      by (simp only: js_split_unfold_more[OF False] js_split_unfold_more[OF ne] tw dw dw') simp
  qed
qed

lemma length_toLowerCase: "length (toLowerCase w) = length w"
  by (simp add: toLowerCase_def)

text \<open>
  Claim C6, as the code has it. The query is lower-cased before it is split, so
  \<open>textMatches\<close> holds the lower-cased forms of the query tokens longer than two characters
  whose lower-cased form occurs in the lower-cased chunk text; \<open>hasDirectMatch\<close> says whether
  there is one; \<open>textMatchScore\<close> divides their number by the number of all pieces of the
  split query. By \<open>includes_str_iff\<close>, \<open>includes_str\<close> is the substring relation.
\<close>

theorem processResult_text_matches:
  "textMatches (processResult query True result) =
     Some (map toLowerCase
            (filter (\<lambda>w. 2 < length w \<and>
                         includes_str (toLowerCase (metadata.text' (metadata (item result)))) (toLowerCase w))
               (js_split query)))
   \<and> hasDirectMatch (processResult query True result) =
     Some (filter (\<lambda>w. 2 < length w \<and>
                         includes_str (toLowerCase (metadata.text' (metadata (item result)))) (toLowerCase w))
               (js_split query) \<noteq> [])
   \<and> textMatchScore (processResult query True result) =
     Some (real (length (filter (\<lambda>w. 2 < length w \<and>
                         includes_str (toLowerCase (metadata.text' (metadata (item result)))) (toLowerCase w))
               (js_split query)))
           / real (length (js_split query)))
   \<and> (includes_str (toLowerCase (metadata.text' (metadata (item result)))) ''user''
      \<and> includes_str (toLowerCase (metadata.text' (metadata (item result)))) ''authentication'' \<longrightarrow>
        textMatches (processResult ''user authentication'' True result) = Some [''user'', ''authentication'']
      \<and> hasDirectMatch (processResult ''user authentication'' True result) = Some True
      \<and> textMatchScore (processResult ''user authentication'' True result) = Some 1)"
proof -
  let ?T = "toLowerCase (metadata.text' (metadata (item result)))"
  have f: "filter (\<lambda>w. 2 < length w \<and> includes_str ?T w) (js_split (toLowerCase query)) =
           map toLowerCase (filter (\<lambda>w. 2 < length w \<and> includes_str ?T (toLowerCase w)) (js_split query))"
    by (simp add: js_split_toLowerCase filter_map comp_def length_toLowerCase)
  have q: "js_split (toLowerCase ''user authentication'') = [''user'', ''authentication'']"
    by code_simp
  have q': "js_split ''user authentication'' = [''user'', ''authentication'']"
    by code_simp
  show ?thesis
    by (simp add: processResult_lexical f q q')
qed

text \<open>The theorem at a concrete chunk text that holds both query words.\<close>

theorem processResult_text_matches_witness:
  "includes_str (toLowerCase ''The user login Authentication flow'') ''user''
   \<and> includes_str (toLowerCase ''The user login Authentication flow'') ''authentication''
   \<and> textMatches (processResult ''user authentication'' True
        \<lparr>query_result.score = 4 / 5, item = example_item ''a.txt'' ''The user login Authentication flow''\<rparr>)
       = Some [''user'', ''authentication'']
   \<and> textMatchScore (processResult ''user authentication'' True
        \<lparr>query_result.score = 4 / 5, item = example_item ''a.txt'' ''The user login Authentication flow''\<rparr>)
       = Some 1"
proof -
  let ?r = "\<lparr>query_result.score = 4 / 5, item = example_item ''a.txt'' ''The user login Authentication flow''\<rparr>"
  have t: "metadata.text' (metadata (item ?r)) = ''The user login Authentication flow''"
    by (simp add: example_item_def)
  have a: "includes_str (toLowerCase ''The user login Authentication flow'') ''user''" by code_simp
  have b: "includes_str (toLowerCase ''The user login Authentication flow'') ''authentication''" by code_simp
  from processResult_text_matches[of "''user authentication''" ?r, THEN conjunct2, THEN conjunct2, THEN conjunct2]
  have "textMatches (processResult ''user authentication'' True ?r) = Some [''user'', ''authentication'']
      \<and> hasDirectMatch (processResult ''user authentication'' True ?r) = Some True
      \<and> textMatchScore (processResult ''user authentication'' True ?r) = Some 1"
    unfolding t using a b by blast
  with a b show ?thesis by blast
qed

text \<open>
  A capitalised query word: the only query token is \<open>User\<close>, the reported match is \<open>user\<close>.
\<close>

theorem processResult_text_matches_counterexample:
  "js_split ''User'' = [''User'']
   \<and> textMatches (processResult ''User'' True
        \<lparr>query_result.score = 4 / 5, item = example_item ''a.txt'' ''user login''\<rparr>)
       = Some [''user'']"
proof -
  have 1: "js_split ''User'' = [''User'']" by code_simp
  have 2: "js_split (toLowerCase ''User'') = [''user'']" by code_simp
  have 3: "toLowerCase ''user login'' = ''user login''" by code_simp
  show ?thesis
    by (simp add: 1 2 3 processResult_lexical example_item_def)
qed

section \<open>Properties of indexing\<close>

lemma inserted_append: "inserted (xs @ ys) = inserted xs @ inserted ys"
  by (induction xs rule: inserted.induct) auto

lemma delays_append: "delays (xs @ ys) = delays xs + delays ys"
  by (induction xs rule: delays.induct) auto

lemma inserted_map_InsertItem: "inserted (map InsertItem xs) = xs"
  by (induction xs) auto


lemma drop_enumerate: "drop m (enumerate n xs) = enumerate (n + m) (drop m xs)"
  by (induction xs arbitrary: m n) (auto simp: drop_Cons split: nat.splits)

lemma take_enumerate: "take m (enumerate n xs) = enumerate n (take m xs)"
  by (induction xs arbitrary: m n) (auto simp: take_Cons split: nat.splits)

lemma zip_upt_enumerate:
  "map (\<lambda>(c, k). f (i + k) c) (zip xs [0 ..< length xs]) = map (\<lambda>(n, c). f n c) (enumerate i xs)"
proof (induction xs arbitrary: i)
  case Nil
  then show ?case by simp
next
  case (Cons x xs)
  have "[0 ..< length (x # xs)] = 0 # map Suc [0 ..< length xs]"
    by (simp add: upt_conv_Cons map_Suc_upt del: upt_Suc)
  then have "map (\<lambda>(c, k). f (i + k) c) (zip (x # xs) [0 ..< length (x # xs)]) =
             f i x # map (\<lambda>(c, k). f (Suc i + k) c) (zip xs [0 ..< length xs])"
    by (simp add: zip_map2 case_prod_unfold del: upt_Suc)
  then show ?case using Cons.IH[of "Suc i"] by simp
qed

lemma indexChunk_cases:
  "indexChunk env fp data n c =
     (case generateEmbedding env (chunk.text' c) of
        Inl e \<Rightarrow> ([], Inl e)
      | Inr emb \<Rightarrow> ([InsertItem (item_of env fp data (n, c))], insertItem env (item_of env fp data (n, c))))"
  by (simp add: indexChunk_def item_of_def split: sum.splits)

lemma Promise_all_events:
  "subseq (inserted (fst (Promise_all (map (\<lambda>(n, c). indexChunk env fp data n c) ps))))
          (map (item_of env fp data) ps)
   \<and> delays (fst (Promise_all (map (\<lambda>(n, c). indexChunk env fp data n c) ps))) = 0
   \<and> (\<forall>u. snd (Promise_all (map (\<lambda>(n, c). indexChunk env fp data n c) ps)) = Inr u \<longrightarrow>
        fst (Promise_all (map (\<lambda>(n, c). indexChunk env fp data n c) ps)) =
          map InsertItem (map (item_of env fp data) ps))"
proof (induction ps)
  case Nil
  then show ?case by simp
next
  case (Cons p ps)
  obtain n c where p: "p = (n, c)" by (cases p)
  obtain evs r where pa: "Promise_all (map (\<lambda>(n, c). indexChunk env fp data n c) ps) = (evs, r)"
    by (cases "Promise_all (map (\<lambda>(n, c). indexChunk env fp data n c) ps)")
  show ?case
  proof (cases "generateEmbedding env (chunk.text' c)")
    case (Inl e)
    then show ?thesis using Cons.IH pa p
      by (auto simp add: indexChunk_cases)
  next
    case (Inr emb)
    then show ?thesis using Cons.IH pa p
      by (auto simp add: indexChunk_cases split: sum.splits)
  qed
qed

lemma runBatch_eq:
  "runBatch env fp data i batch =
     Promise_all (map (\<lambda>(n, c). indexChunk env fp data n c) (enumerate i batch))"
  unfolding runBatch_def
  using zip_upt_enumerate[of "\<lambda>n c. indexChunk env fp data n c" i batch] by simp

lemma js_slice_batch:
  "js_slice chunks (int i) (int (i + batchSize)) = take batchSize (drop i chunks)"
  using js_slice_window[of "int i" "int batchSize" chunks] by simp

lemma drop_unit_items:
  "drop i (unit_items env fp data chunks) = map (item_of env fp data) (enumerate i (drop i chunks))"
  by (simp add: unit_items_def drop_map drop_enumerate)

lemma length_unit_items: "length (unit_items env fp data chunks) = length chunks"
  by (simp add: unit_items_def)

lemma batch_items:
  "map (item_of env fp data) (enumerate i (take batchSize (drop i chunks))) =
   take batchSize (drop i (unit_items env fp data chunks))"
  by (simp add: drop_unit_items take_map take_enumerate)

lemma batches_nonempty:
  "0 < n \<Longrightarrow> xs \<noteq> [] \<Longrightarrow> batches n xs = take n xs # batches n (drop n xs)"
  by (subst batches.simps) simp

lemma batches_ne: "0 < n \<Longrightarrow> xs \<noteq> [] \<Longrightarrow> batches n xs \<noteq> []"
  by (simp add: batches_nonempty)

lemma batches_Nil: "batches n [] = []"
  by (subst batches.simps) simp

lemma batches_eq_Nil_iff: "0 < n \<Longrightarrow> batches n xs = [] \<longleftrightarrow> xs = []"
  by (subst batches.simps) simp


lemma inserted_interleave: "inserted (interleave bs) = concat bs"
  by (induction bs rule: interleave.induct) (auto simp: inserted_append inserted_map_InsertItem)

lemma concat_batches: "0 < n \<Longrightarrow> concat (batches n xs) = xs"
proof (induction n xs rule: batches.induct)
  case (1 n xs)
  show ?case
  proof (cases "xs = []")
    case True
    then show ?thesis by (simp add: batches_Nil)
  next
    case False
    then show ?thesis using 1 by (simp add: batches_nonempty)
  qed
qed

lemma ceil_div_step:
  fixes m n :: nat
  assumes "0 < n" "0 < m"
  shows "(m + n - 1) div n = Suc ((m - n + n - 1) div n)"
proof -
  have h: "m + n - 1 = (m - 1) + n" using assms(2) by arith
  have "(m + n - 1) div n = ((m - 1) + n) div n" by (simp only: h)
  also have "\<dots> = Suc ((m - 1) div n)" using assms(1) by simp
  finally have l: "(m + n - 1) div n = Suc ((m - 1) div n)" .
  show ?thesis
  proof (cases "n \<le> m")
    case True
    then have "m - n + n - 1 = m - 1" by arith
    then show ?thesis by (simp only: l)
  next
    case False
    then have e: "m - n + n - 1 = n - 1" by arith
    have "(n - 1) div n = 0" using assms(1) by simp
    moreover have "(m - 1) div n = 0" using False by simp
    ultimately show ?thesis by (simp only: l e)
  qed
qed

lemma length_batches: "0 < n \<Longrightarrow> length (batches n xs) = (length xs + n - 1) div n"
proof (induction n xs rule: batches.induct)
  case (1 n xs)
  show ?case
  proof (cases "xs = []")
    case True
    then show ?thesis using "1.prems" by (simp add: batches_Nil)
  next
    case False
    then have len: "0 < length xs" by simp
    have "n \<noteq> 0" using "1.prems" by simp
    then have "\<not> (n = 0 \<or> xs = [])" using False by simp
    from "1.IH"[OF this "1.prems"]
    have IH: "length (batches n (drop n xs)) = (length xs - n + n - 1) div n"
      by simp
    have "length (batches n xs) = Suc (length (batches n (drop n xs)))"
      by (simp only: batches_nonempty[OF "1.prems" False] list.size(4))
    also have "\<dots> = Suc ((length xs - n + n - 1) div n)" by (simp only: IH)
    also have "\<dots> = (length xs + n - 1) div n"
      by (rule ceil_div_step[OF "1.prems" len, symmetric])
    finally show ?thesis .
  qed
qed

lemma batchLoop_done:
  "\<not> i < length chunks \<Longrightarrow> batchLoop env fp data chunks i = ([], Inr ())"
  by (subst batchLoop.simps) simp

lemma batchLoop_events:
  "subseq (inserted (fst (batchLoop env fp data chunks i)))
          (drop i (unit_items env fp data chunks))
   \<and> delays (fst (batchLoop env fp data chunks i))
       \<le> length (batches batchSize (drop i (unit_items env fp data chunks))) - 1
   \<and> (\<forall>u. snd (batchLoop env fp data chunks i) = Inr u \<longrightarrow>
        fst (batchLoop env fp data chunks i) =
          interleave (batches batchSize (drop i (unit_items env fp data chunks))))"
proof (induction env fp data chunks i rule: batchLoop.induct)
  case (1 env fp data chunks i)
  let ?items = "unit_items env fp data chunks"
  let ?X = "drop i ?items"
  show ?case
  proof (cases "i < length chunks")
    case False
    then have "?X = []" by (simp add: length_unit_items)
    then show ?thesis using False by (simp add: batchLoop_done batches_Nil)
  next
    case True
    let ?batch = "js_slice chunks (int i) (int (i + batchSize))"
    obtain evs1 r1 where rb: "runBatch env fp data i ?batch = (evs1, r1)"
      by (cases "runBatch env fp data i ?batch")
    have b: "map (item_of env fp data) (enumerate i ?batch) = take batchSize ?X"
      by (simp only: js_slice_batch batch_items)
    have pa: "Promise_all (map (\<lambda>(n, c). indexChunk env fp data n c) (enumerate i ?batch)) = (evs1, r1)"
      using rb by (simp only: runBatch_eq)
    have "subseq (inserted evs1) (take batchSize ?X) \<and> delays evs1 = 0
          \<and> (\<forall>u. r1 = Inr u \<longrightarrow> evs1 = map InsertItem (take batchSize ?X))"
      using Promise_all_events[of env fp data "enumerate i ?batch"]
      unfolding pa b fst_conv snd_conv .
    then have s1: "subseq (inserted evs1) (take batchSize ?X)"
      and d1: "delays evs1 = 0"
      and ok1: "\<And>u. r1 = Inr u \<Longrightarrow> evs1 = map InsertItem (take batchSize ?X)"
      by blast+
    have "drop (i + batchSize) ?items = drop batchSize ?X"
      by (simp add: add.commute)
    then have X: "?X = take batchSize ?X @ drop (i + batchSize) ?items"
      by (simp only: append_take_drop_id)
    have Xne: "?X \<noteq> []" using True by (simp add: length_unit_items)
    have bs: "batches batchSize ?X = take batchSize ?X # batches batchSize (drop (i + batchSize) ?items)"
      using batches_nonempty[OF _ Xne, of batchSize] by (simp add: batchSize_def add.commute)
    show ?thesis
    proof (cases r1)
      case (Inl e)
      then have res: "batchLoop env fp data chunks i = (evs1, Inl e)"
        using True rb by (subst batchLoop.simps) simp
      have "subseq (inserted evs1) ?X"
        using s1 by (subst X) (rule list_emb_prefix)
      then show ?thesis using res d1 by simp
    next
      case (Inr u)
      obtain evs' r' where rec: "batchLoop env fp data chunks (i + batchSize) = (evs', r')"
        by (cases "batchLoop env fp data chunks (i + batchSize)")
      let ?D = "if i + batchSize < length chunks then [Delay 100] else []"
      have res: "batchLoop env fp data chunks i = (evs1 @ ?D @ evs', r')"
        using True rb Inr rec by (subst batchLoop.simps) simp
      from "1.IH"[OF True rb[symmetric] Inr] rec
      have s2: "subseq (inserted evs') (drop (i + batchSize) ?items)"
        and d2: "delays evs' \<le> length (batches batchSize (drop (i + batchSize) ?items)) - 1"
        and ok2: "\<And>u. r' = Inr u \<Longrightarrow>
                    evs' = interleave (batches batchSize (drop (i + batchSize) ?items))"
        by simp_all
      have e1: "evs1 = map InsertItem (take batchSize ?X)" using ok1 Inr by simp
      have ins: "inserted (evs1 @ ?D @ evs') = inserted evs1 @ inserted evs'"
        by (simp add: inserted_append)
      have "subseq (inserted evs1 @ inserted evs') (take batchSize ?X @ drop (i + batchSize) ?items)"
        using s1 s2 by (rule list_emb_append_mono)
      then have A: "subseq (inserted (evs1 @ ?D @ evs')) ?X"
        using X ins by simp
      have rest_ne: "i + batchSize < length chunks \<longleftrightarrow> drop (i + batchSize) ?items \<noteq> []"
        by (auto simp: length_unit_items)
      have B: "delays (evs1 @ ?D @ evs') \<le> length (batches batchSize ?X) - 1"
      proof (cases "i + batchSize < length chunks")
        case True
        then have "drop (i + batchSize) ?items \<noteq> []" using rest_ne by blast
        then have "batches batchSize (drop (i + batchSize) ?items) \<noteq> []"
          by (rule batches_ne[rotated]) (simp add: batchSize_def)
        then have L: "1 \<le> length (batches batchSize (drop (i + batchSize) ?items))"
          by (cases "batches batchSize (drop (i + batchSize) ?items)") simp_all
        have "delays (evs1 @ ?D @ evs') = Suc (delays evs')"
          using True d1 by (simp add: delays_append)
        moreover have "length (batches batchSize ?X) =
                       Suc (length (batches batchSize (drop (i + batchSize) ?items)))"
          by (simp only: bs list.size(4))
        ultimately show ?thesis using d2 L by arith
      next
        case False
        then have "evs' = []" using rec by (simp add: batchLoop_done)
        then show ?thesis using False d1 by (simp add: delays_append)
      qed
      have C: "evs1 @ ?D @ evs' = interleave (batches batchSize ?X)" if "r' = Inr v" for v
      proof (cases "i + batchSize < length chunks")
        case True
        then have "drop (i + batchSize) ?items \<noteq> []" using rest_ne by blast
        then have "batches batchSize (drop (i + batchSize) ?items) \<noteq> []"
          by (rule batches_ne[rotated]) (simp add: batchSize_def)
        then obtain b' bs' where bb: "batches batchSize (drop (i + batchSize) ?items) = b' # bs'"
          by (cases "batches batchSize (drop (i + batchSize) ?items)") auto
        have "evs' = interleave (b' # bs')" using ok2[OF that] by (simp only: bb)
        moreover have "interleave (batches batchSize ?X) =
              map InsertItem (take batchSize ?X) @ Delay 100 # interleave (b' # bs')"
          by (simp only: bs bb interleave.simps)
        moreover have "?D = [Delay 100]" using True by (simp only: if_True)
        ultimately show ?thesis using e1 by (simp only: append_Cons append_Nil)
      next
        case False
        then have "evs' = []" using rec by (simp add: batchLoop_done)
        moreover have "batches batchSize (drop (i + batchSize) ?items) = []"
          using False rest_ne by (simp add: batches_Nil)
        moreover have "?D = []" using False by (simp only: if_False)
        ultimately show ?thesis using e1 by (simp only: bs interleave.simps append_Nil2)
      qed
      show ?thesis
        unfolding res fst_conv snd_conv
      proof (intro conjI allI impI)
        show "subseq (inserted (evs1 @ ?D @ evs')) ?X" by (rule A)
        show "delays (evs1 @ ?D @ evs') \<le> length (batches batchSize ?X) - 1" by (rule B)
        fix v assume "r' = Inr v"
        then show "evs1 @ ?D @ evs' = interleave (batches batchSize ?X)" by (rule C)
      qed
    qed
  qed
qed

lemma splitIntoChunks_default: "splitIntoChunks text 500 50 = Some (default_chunks text)"
  using splitIntoChunks_closed_form[of 500 50 "text"] by (simp add: default_chunks_def)

lemma indexUnit_eq:
  "indexUnit env fp data =
     Some (batchLoop env fp data (default_chunks (extracted_unit.text' data)) 0,
           length (default_chunks (extracted_unit.text' data)))"
  by (simp add: indexUnit_def splitIntoChunks_default)

lemma indexUnit_events:
  assumes "indexUnit env fp data = Some ((evs, r), n)"
  shows "subseq (inserted evs) (unit_items env fp data (default_chunks (extracted_unit.text' data)))"
    and "n = length (default_chunks (extracted_unit.text' data))"
    and "delays evs \<le> (n + 4) div 5 - 1"
    and "r = Inr u \<Longrightarrow> evs = unit_events env fp data"
proof -
  let ?chunks = "default_chunks (extracted_unit.text' data)"
  have b: "batchLoop env fp data ?chunks 0 = (evs, r)" and n: "n = length ?chunks"
    using assms by (simp_all add: indexUnit_eq)
  from batchLoop_events[of env fp data ?chunks 0]
  have e: "subseq (inserted evs) (unit_items env fp data ?chunks)
         \<and> delays evs \<le> length (batches batchSize (unit_items env fp data ?chunks)) - 1
         \<and> (\<forall>u. r = Inr u \<longrightarrow> evs = interleave (batches batchSize (unit_items env fp data ?chunks)))"
    unfolding b fst_conv snd_conv by simp
  show "subseq (inserted evs) (unit_items env fp data ?chunks)" using e by blast
  show "n = length ?chunks" by (rule n)
  have "length (batches batchSize (unit_items env fp data ?chunks)) = (n + 4) div 5"
    using length_batches[of batchSize "unit_items env fp data ?chunks"]
    by (simp add: batchSize_def length_unit_items n)
  then show "delays evs \<le> (n + 4) div 5 - 1" using e by simp
  show "evs = unit_events env fp data" if "r = Inr u" using e that by (simp add: unit_events_def)
qed


lemma inserted_unit_events:
  "inserted (unit_events env fp data) =
     unit_items env fp data (default_chunks (extracted_unit.text' data))"
  using concat_batches[of batchSize]
  by (simp add: unit_events_def inserted_interleave batchSize_def)

lemma unitsLoop_events:
  "\<exists>evs r. unitsLoop env fp units tot = Some (evs, r)
     \<and> subseq (inserted evs) (document_items env fp units)
     \<and> (\<forall>t. r = Inr t \<longrightarrow>
          evs = concat (map (unit_events env fp) units)
        \<and> t = tot + sum_list (map (\<lambda>data. length (default_chunks (extracted_unit.text' data))) units))"
proof (induction units arbitrary: tot)
  case Nil
  then show ?case by (simp add: document_items_def)
next
  case (Cons data rest)
  let ?chunks = "default_chunks (extracted_unit.text' data)"
  obtain evs1 r1 where b: "batchLoop env fp data ?chunks 0 = (evs1, r1)"
    by (cases "batchLoop env fp data ?chunks 0")
  then have iu: "indexUnit env fp data = Some ((evs1, r1), length ?chunks)"
    by (simp add: indexUnit_eq)
  have s1: "subseq (inserted evs1) (unit_items env fp data ?chunks)"
    using indexUnit_events(1)[OF iu] .
  have di: "document_items env fp (data # rest) =
            unit_items env fp data ?chunks @ document_items env fp rest"
    by (simp add: document_items_def)
  show ?case
  proof (cases r1)
    case (Inl e)
    then have "unitsLoop env fp (data # rest) tot = Some (evs1, Inl e)"
      using iu by simp
    moreover have "subseq (inserted evs1) (document_items env fp (data # rest))"
      unfolding di using s1 by (rule list_emb_prefix)
    ultimately show ?thesis by simp
  next
    case (Inr u)
    from Cons.IH[of "tot + length ?chunks"] obtain evs2 r2 where
      rec: "unitsLoop env fp rest (tot + length ?chunks) = Some (evs2, r2)"
      and s2: "subseq (inserted evs2) (document_items env fp rest)"
      and ok2: "\<And>t. r2 = Inr t \<Longrightarrow>
          evs2 = concat (map (unit_events env fp) rest)
        \<and> t = tot + length ?chunks
              + sum_list (map (\<lambda>data. length (default_chunks (extracted_unit.text' data))) rest)"
      by blast
    have res: "unitsLoop env fp (data # rest) tot = Some (evs1 @ evs2, r2)"
      using iu Inr rec by simp
    have e1: "evs1 = unit_events env fp data"
      using indexUnit_events(4)[OF iu] Inr by simp
    have "subseq (inserted evs1 @ inserted evs2)
            (unit_items env fp data ?chunks @ document_items env fp rest)"
      using s1 s2 by (rule list_emb_append_mono)
    then have A: "subseq (inserted (evs1 @ evs2)) (document_items env fp (data # rest))"
      by (simp add: inserted_append di)
    have B: "evs1 @ evs2 = concat (map (unit_events env fp) (data # rest))
        \<and> t = tot + sum_list (map (\<lambda>data. length (default_chunks (extracted_unit.text' data))) (data # rest))"
      if "r2 = Inr t" for t
      using ok2[OF that] e1 by simp
    show ?thesis
      unfolding res using A B by blast
  qed
qed

lemma indexDocument_events:
  "\<exists>evs r eng'. indexDocument env eng fp = Some ((evs, r), eng')
     \<and> (evs = [] \<or> (\<exists>units. extractTextFromFile env fp = Inr units
                        \<and> subseq (inserted evs) (document_items env fp units)))
     \<and> (\<forall>res. r = Inr res \<longrightarrow>
          (\<exists>units. extractTextFromFile env fp = Inr units
             \<and> evs = concat (map (unit_events env fp) units)
             \<and> chunksCreated res =
                 sum_list (map (\<lambda>data. length (default_chunks (extracted_unit.text' data))) units)))"
proof (cases "initialize env eng")
  case (Inl e)
  then show ?thesis by (simp add: indexDocument_def)
next
  case (Inr eng1)
  show ?thesis
  proof (cases "extractTextFromFile env fp")
    case (Inl e)
    then show ?thesis using Inr by (simp add: indexDocument_def)
  next
    case units: (Inr units)
    from unitsLoop_events[of env fp units 0] obtain evs r where
      ul: "unitsLoop env fp units 0 = Some (evs, r)"
      and s: "subseq (inserted evs) (document_items env fp units)"
      and ok: "\<And>t. r = Inr t \<Longrightarrow> evs = concat (map (unit_events env fp) units)
        \<and> t = 0 + sum_list (map (\<lambda>data. length (default_chunks (extracted_unit.text' data))) units)"
      by blast
    show ?thesis
    proof (cases r)
      case (Inl e)
      then show ?thesis using Inr units ul s by (simp add: indexDocument_def)
    next
      case r: (Inr t)
      then show ?thesis using Inr units ul s ok[OF r] by (simp add: indexDocument_def)
    qed
  qed
qed

lemma subseq_set_subset: "subseq xs ys \<Longrightarrow> set xs \<subseteq> set ys"
  by (induction rule: list_emb.induct) auto



lemma indexDocument_inserted:
  assumes "indexDocument env eng fp = Some ((evs, r), eng')"
      and "it \<in> set (inserted evs)"
  shows "\<exists>units. extractTextFromFile env fp = Inr units \<and> it \<in> set (document_items env fp units)"
proof -
  from indexDocument_events[of env eng fp] assms(1)
  have "evs = [] \<or> (\<exists>units. extractTextFromFile env fp = Inr units
                        \<and> subseq (inserted evs) (document_items env fp units))"
    by auto
  then show ?thesis using assms(2) subseq_set_subset by fastforce
qed





lemma example_env_succeeds:
  "generateEmbedding (example_env c) t = Inr []" "insertItem (example_env c) it = Inr ()"
  by (simp_all add: generateEmbedding_def example_env_def)
























section \<open>Properties of the chunk identifiers\<close>

lemma of_char_digit: "n < 10 \<Longrightarrow> (of_char (char_of (48 + n)) :: nat) = 48 + n"
  by (simp add: take_bit_eq_mod)

lemma number_toString_digits: "c \<in> set (number_toString n) \<Longrightarrow> is_digit c"
proof (induction n rule: number_toString.induct)
  case (1 n)
  show ?case
  proof (cases "n < 10")
    case True
    then have "number_toString n = [char_of (48 + n)]" by (subst number_toString.simps) simp
    then show ?thesis using "1.prems" True by (simp add: is_digit_def of_char_digit)
  next
    case False
    then have e: "number_toString n = number_toString (n div 10) @ [char_of (48 + n mod 10)]"
      by (subst number_toString.simps) simp
    have "n mod 10 < 10" by simp
    then have "is_digit (char_of (48 + n mod 10))" by (simp add: is_digit_def of_char_digit)
    then show ?thesis using "1.prems" "1.IH"[OF False] unfolding e by auto
  qed
qed

lemma digits_value_number_toString: "digits_value (number_toString n) = n"
proof (induction n rule: number_toString.induct)
  case (1 n)
  show ?case
  proof (cases "n < 10")
    case True
    then have "number_toString n = [char_of (48 + n)]" by (subst number_toString.simps) simp
    then show ?thesis using True by (simp add: digits_value_def of_char_digit)
  next
    case False
    then have e: "number_toString n = number_toString (n div 10) @ [char_of (48 + n mod 10)]"
      by (subst number_toString.simps) simp
    have m: "n mod 10 < 10" by simp
    have "digits_value (number_toString n) =
          10 * digits_value (number_toString (n div 10)) + ((of_char (char_of (48 + n mod 10)) :: nat) - 48)"
      unfolding e digits_value_def by simp
    also have "\<dots> = 10 * (n div 10) + n mod 10"
      using "1.IH"[OF False] of_char_digit[OF m] by simp
    finally show ?thesis by simp
  qed
qed

lemma number_toString_inj: "number_toString a = number_toString b \<Longrightarrow> a = b"
  by (metis digits_value_number_toString)

lemma last_nondigit_split:
  assumes eq: "xs @ a # ds = ys @ b # es"
      and "\<not> is_digit a" "\<not> is_digit b"
      and "\<forall>c\<in>set ds. is_digit c" "\<forall>c\<in>set es. is_digit c"
  shows "ds = es \<and> xs = ys"
proof -
  have "rev ds @ a # rev xs = rev es @ b # rev ys"
    using arg_cong[OF eq, of rev] by simp
  then have "takeWhile is_digit (rev ds @ a # rev xs) = takeWhile is_digit (rev es @ b # rev ys)"
    by simp
  moreover have "takeWhile is_digit (rev ds @ a # rev xs) = rev ds"
    using assms(2,4) by (simp add: takeWhile_tail)
  moreover have "takeWhile is_digit (rev es @ b # rev ys) = rev es"
    using assms(3,5) by (simp add: takeWhile_tail)
  ultimately have d: "ds = es" by simp
  then have "xs @ [a] = ys @ [b]" using eq by (metis append.assoc append_Cons append_Nil append_same_eq)
  then show ?thesis using d by simp
qed

lemma nondigits: "\<not> is_digit CHR ''k''" "\<not> is_digit CHR ''w''" "\<not> is_digit CHR ''_''"
  by (simp_all add: is_digit_def)

lemma sheet_id_inj:
  assumes "F @ ''_'' @ s1 @ ''_row'' @ number_toString r1 @ ''_chunk'' @ number_toString n1 =
           F @ ''_'' @ s2 @ ''_row'' @ number_toString r2 @ ''_chunk'' @ number_toString n2"
  shows "s1 = s2 \<and> r1 = r2 \<and> n1 = n2"
proof -
  have "(F @ ''_'' @ s1 @ ''_row'' @ number_toString r1 @ ''_chun'') @ CHR ''k'' # number_toString n1 =
        (F @ ''_'' @ s2 @ ''_row'' @ number_toString r2 @ ''_chun'') @ CHR ''k'' # number_toString n2"
    using assms by simp
  from last_nondigit_split[OF this nondigits(1) nondigits(1)]
  have n: "number_toString n1 = number_toString n2"
    and p: "F @ ''_'' @ s1 @ ''_row'' @ number_toString r1 @ ''_chun'' =
            F @ ''_'' @ s2 @ ''_row'' @ number_toString r2 @ ''_chun''"
    using number_toString_digits by blast+
  from p have "(s1 @ ''_ro'') @ CHR ''w'' # number_toString r1 =
               (s2 @ ''_ro'') @ CHR ''w'' # number_toString r2"
    by simp
  from last_nondigit_split[OF this nondigits(2) nondigits(2)]
  have r: "number_toString r1 = number_toString r2" and s: "s1 @ ''_ro'' = s2 @ ''_ro''"
    using number_toString_digits by blast+
  from s have "s1 = s2" by simp
  with n r show ?thesis using number_toString_inj by blast
qed

lemma plain_id_inj:
  "F @ ''_chunk_'' @ number_toString n1 = F @ ''_chunk_'' @ number_toString n2 \<Longrightarrow> n1 = n2"
  using number_toString_inj by simp

lemma concat_map_if:
  "map f (concat (map (\<lambda>r. if P r then [g r] else []) xs)) = map (\<lambda>r. f (g r)) (filter P xs)"
  by (induction xs) auto

lemma sheetRows_keys:
  "\<exists>rs. distinct rs \<and> map row_key (sheetRows name ws) = map (\<lambda>r. (name, Suc r)) rs"
proof (cases "ref ws")
  case None
  then have "sheetRows name ws = []" by (simp add: sheetRows_def)
  then show ?thesis by (intro exI[of _ "[]"]) simp
next
  case (Some rg)
  have "map row_key (sheetRows name ws) =
        map (\<lambda>r. (name, Suc r)) (filter (\<lambda>r. length (rowData ws rg r) > 0) [s_r rg ..< Suc (e_r rg)])"
    unfolding sheetRows_def Some option.case
    by (simp only: concat_map_if) (simp add: row_key_def)
  moreover have "distinct (filter (\<lambda>r. length (rowData ws rg r) > 0) [s_r rg ..< Suc (e_r rg)])"
    by simp
  ultimately show ?thesis by blast
qed

lemma sheetRows_props:
  "distinct (map row_key (sheetRows name ws))"
  "r \<in> set (sheetRows name ws) \<Longrightarrow> excel_row.sheet r = name \<and> excel_row.row r \<noteq> 0"
proof -
  obtain rs where rs: "distinct rs" "map row_key (sheetRows name ws) = map (\<lambda>r. (name, Suc r)) rs"
    using sheetRows_keys by blast
  show "distinct (map row_key (sheetRows name ws))"
    unfolding rs(2) using rs(1) by (simp add: distinct_map inj_on_def)
  assume "r \<in> set (sheetRows name ws)"
  then have "row_key r \<in> set (map row_key (sheetRows name ws))" by simp
  then show "excel_row.sheet r = name \<and> excel_row.row r \<noteq> 0"
    unfolding rs(2) by (auto simp: row_key_def)
qed

lemma sheetsLoop_inv:
  assumes "sheetsLoop wb names acc = Inr rows"
      and "distinct names" "[] \<notin> set names"
      and "distinct (map row_key acc)"
      and "\<forall>r\<in>set acc. excel_row.sheet r \<notin> set names \<and> excel_row.sheet r \<noteq> [] \<and> excel_row.row r \<noteq> 0"
  shows "distinct (map row_key rows)
         \<and> (\<forall>r\<in>set rows. excel_row.sheet r \<noteq> [] \<and> excel_row.row r \<noteq> 0)"
  using assms
proof (induction names arbitrary: acc)
  case Nil
  then show ?case by simp
next
  case (Cons n rest)
  from Cons.prems(1) obtain ws where ws: "Sheets wb n = Some ws"
    and rec: "sheetsLoop wb rest (acc @ sheetRows n ws) = Inr rows"
    by (auto split: option.splits)
  have n: "n \<noteq> []" "n \<notin> set rest" "distinct rest" "[] \<notin> set rest"
    using Cons.prems(2,3) by auto
  have new: "\<forall>r\<in>set (sheetRows n ws). excel_row.sheet r = n \<and> excel_row.row r \<noteq> 0"
    using sheetRows_props(2) by blast
  have disj: "set (map row_key acc) \<inter> set (map row_key (sheetRows n ws)) = {}"
  proof -
    have "\<forall>r\<in>set acc. excel_row.sheet r \<noteq> n" using Cons.prems(5) by auto
    then show ?thesis using new by (auto simp: row_key_def)
  qed
  have d: "distinct (map row_key (acc @ sheetRows n ws))"
    using Cons.prems(4) sheetRows_props(1)[of n ws] disj by simp
  have inv: "\<forall>r\<in>set (acc @ sheetRows n ws).
      excel_row.sheet r \<notin> set rest \<and> excel_row.sheet r \<noteq> [] \<and> excel_row.row r \<noteq> 0"
    using Cons.prems(5) new n by auto
  show ?case using Cons.IH[OF rec n(3) n(4) d inv] .
qed

lemma excel_units_shape:
  assumes "distinct (map row_key rows)"
      and "\<forall>r\<in>set rows. excel_row.sheet r \<noteq> [] \<and> excel_row.row r \<noteq> 0"
  shows "sheet_units F (map (excel_unit F) rows)"
proof -
  have "map unit_key (map (excel_unit F) rows) = map (\<lambda>k. (Some (fst k), Some (snd k))) (map row_key rows)"
    by (simp add: unit_key_def excel_unit_def row_key_def)
  moreover have "inj (\<lambda>k :: string \<times> nat. (Some (fst k), Some (snd k)))"
    by (auto simp: inj_on_def prod_eq_iff)
  ultimately have "distinct (map unit_key (map (excel_unit F) rows))"
    using assms(1) by (metis distinct_map inj_on_subset subset_UNIV)
  moreover have "list_all (\<lambda>u. extracted_unit.fileName u = F \<and>
                  (case (extracted_unit.sheet u, extracted_unit.row u) of
                     (Some s, Some r) \<Rightarrow> s \<noteq> [] \<and> r \<noteq> 0
                   | _ \<Rightarrow> False)) (map (excel_unit F) rows)"
    using assms(2) by (simp add: list_all_iff excel_unit_def)
  ultimately show ?thesis by (simp add: sheet_units_def)
qed

lemma extract_units_shape:
  assumes "extractTextFromFile env fp = Inr units"
      and "\<forall>wb. XLSX_readFile env fp = Inr wb \<longrightarrow> distinct (SheetNames wb) \<and> [] \<notin> set (SheetNames wb)"
  shows "plain_units (basename env fp) units \<or> sheet_units (basename env fp) units"
proof -
  let ?F = "basename env fp"
  let ?ext = "toLowerCase (extname env fp)"
  consider (c_pdf) "?ext = ''.pdf''" | (c_docx) "?ext \<noteq> ''.pdf'' \<and> ?ext = ''.docx''"
    | (c_xl) "?ext \<noteq> ''.pdf'' \<and> ?ext \<noteq> ''.docx'' \<and> (?ext = ''.xlsx'' \<or> ?ext = ''.xls'')"
    | (c_txt) "?ext \<noteq> ''.pdf'' \<and> ?ext \<noteq> ''.docx'' \<and> \<not> (?ext = ''.xlsx'' \<or> ?ext = ''.xls'')
            \<and> (?ext = ''.txt'' \<or> ?ext = ''.md'')"
    | (c_other) "?ext \<noteq> ''.pdf'' \<and> ?ext \<noteq> ''.docx'' \<and> \<not> (?ext = ''.xlsx'' \<or> ?ext = ''.xls'')
            \<and> \<not> (?ext = ''.txt'' \<or> ?ext = ''.md'')"
    by blast
  then show ?thesis
  proof cases
    case c_pdf
    then show ?thesis using assms(1)
      by (auto simp: extractTextFromFile_def Let_def plain_units_def plain_unit_def split: sum.splits)
  next
    case c_docx
    then show ?thesis using assms(1)
      by (auto simp: extractTextFromFile_def Let_def plain_units_def plain_unit_def split: sum.splits)
  next
    case c_xl
    then obtain rows where ex: "extractTextFromExcel env fp = Inr rows"
      and u: "units = map (excel_unit ?F) rows"
      using assms(1) by (auto simp: extractTextFromFile_def Let_def split: sum.splits)
    from ex obtain wb where wb: "XLSX_readFile env fp = Inr wb"
      and sl: "sheetsLoop wb (SheetNames wb) [] = Inr rows"
      by (auto simp: extractTextFromExcel_def split: sum.splits)
    have "distinct (SheetNames wb)" "[] \<notin> set (SheetNames wb)" using assms(2) wb by auto
    from sheetsLoop_inv[OF sl this] have "distinct (map row_key rows)
         \<and> (\<forall>r\<in>set rows. excel_row.sheet r \<noteq> [] \<and> excel_row.row r \<noteq> 0)" by simp
    then show ?thesis unfolding u using excel_units_shape by blast
  next
    case c_txt
    then show ?thesis using assms(1)
      by (auto simp: extractTextFromFile_def Let_def plain_units_def plain_unit_def split: sum.splits)
  next
    case c_other
    then show ?thesis using assms(1)
      by (auto simp: extractTextFromFile_def Let_def)
  qed
qed

lemma subseq_distinct: "subseq xs ys \<Longrightarrow> distinct ys \<Longrightarrow> distinct xs"
proof (induction rule: list_emb.induct)
  case (list_emb_Nil ys)
  then show ?case by simp
next
  case (list_emb_Cons xs ys y)
  then show ?case by simp
next
  case (list_emb_Cons2 x y xs ys)
  then have "set xs \<subseteq> set ys" by (auto dest: subseq_set_subset)
  with list_emb_Cons2 show ?case by auto
qed

lemma id_item_of: "id' (item_of env fp data p) = chunkId data (fst p)"
  by (simp add: item_of_def makeItem_def)

lemma map_fst_enumerate_fun:
  "map (\<lambda>p. f (fst p)) (enumerate n xs) = map f [n ..< n + length xs]"
proof -
  have "map (f \<circ> fst) (enumerate n xs) = map f (map fst (enumerate n xs))"
    by (simp only: map_map)
  also have "\<dots> = map f [n ..< n + length xs]" by (simp only: map_fst_enumerate)
  finally show ?thesis by (simp only: comp_def)
qed

lemma ids_unit_items:
  "map id' (unit_items env fp data chunks) = map (chunkId data) [0 ..< length chunks]"
proof -
  show ?thesis
    using map_fst_enumerate_fun[of "chunkId data" 0 chunks]
    by (simp add: unit_items_def id_item_of comp_def)
qed

lemma chunkIndex_unit_items:
  "map (\<lambda>it. metadata.chunkIndex (metadata it)) (unit_items env fp data chunks) = [0 ..< length chunks]"
proof -
  have "map (\<lambda>it. metadata.chunkIndex (metadata it)) (unit_items env fp data chunks) =
        map fst (enumerate 0 chunks)"
    by (simp add: unit_items_def item_of_def makeItem_def comp_def)
  then show ?thesis by simp
qed

lemma distinct_concat_map_inj:
  assumes "distinct us"
      and "\<And>u. u \<in> set us \<Longrightarrow> distinct (g u)"
      and "\<And>u v a b. u \<in> set us \<Longrightarrow> v \<in> set us \<Longrightarrow> a \<in> set (g u) \<Longrightarrow> b \<in> set (g v) \<Longrightarrow>
             f u a = f v b \<Longrightarrow> u = v \<and> a = b"
  shows "distinct (concat (map (\<lambda>u. map (f u) (g u)) us))"
  using assms
proof (induction us)
  case Nil
  then show ?case by simp
next
  case (Cons u us)
  have "inj_on (f u) (set (g u))"
  proof (rule inj_onI)
    fix a b assume "a \<in> set (g u)" "b \<in> set (g u)" "f u a = f u b"
    then show "a = b" using Cons.prems(3)[of u u a b] by simp
  qed
  then have 1: "distinct (map (f u) (g u))"
    using Cons.prems(2)[of u] by (simp add: distinct_map)
  have 2: "distinct (concat (map (\<lambda>u. map (f u) (g u)) us))"
  proof (rule Cons.IH)
    show "distinct us" using Cons.prems(1) by simp
    show "distinct (g v)" if "v \<in> set us" for v using Cons.prems(2)[of v] that by simp
    show "w = v \<and> a = b"
      if "w \<in> set us" "v \<in> set us" "a \<in> set (g w)" "b \<in> set (g v)" "f w a = f v b"
      for w v a b
      using Cons.prems(3)[of w v a b] that by simp
  qed
  have 3: "set (map (f u) (g u)) \<inter> set (concat (map (\<lambda>u. map (f u) (g u)) us)) = {}"
  proof (rule ccontr)
    assume "set (map (f u) (g u)) \<inter> set (concat (map (\<lambda>u. map (f u) (g u)) us)) \<noteq> {}"
    then obtain a v b where "a \<in> set (g u)" "v \<in> set us" "b \<in> set (g v)" "f u a = f v b"
      by auto
    then have "u = v" using Cons.prems(3)[of u v a b] by simp
    then show False using \<open>v \<in> set us\<close> Cons.prems(1) by simp
  qed
  show ?case using 1 2 3 by simp
qed

lemma chunkId_sheet:
  assumes "extracted_unit.sheet u = Some s" "s \<noteq> []" "extracted_unit.row u = Some r"
  shows "chunkId u n = extracted_unit.fileName u @ ''_'' @ s @ ''_row'' @ number_toString r @
                       ''_chunk'' @ number_toString n"
  using assms by (simp add: chunkId_def)

lemma chunkId_plain:
  assumes "extracted_unit.sheet u = None"
  shows "chunkId u n = extracted_unit.fileName u @ ''_chunk_'' @ number_toString n"
  using assms by (simp add: chunkId_def)

lemma sheet_units_D:
  assumes "sheet_units F units" "u \<in> set units"
  shows "\<exists>s r. extracted_unit.fileName u = F \<and> extracted_unit.sheet u = Some s \<and> s \<noteq> []
               \<and> extracted_unit.row u = Some r \<and> r \<noteq> 0"
proof -
  have c: "extracted_unit.fileName u = F \<and>
                  (case (extracted_unit.sheet u, extracted_unit.row u) of
                     (Some s, Some r) \<Rightarrow> s \<noteq> [] \<and> r \<noteq> 0
                   | _ \<Rightarrow> False)"
    using assms by (simp add: sheet_units_def list_all_iff)
  then show ?thesis
    by (cases "extracted_unit.sheet u"; cases "extracted_unit.row u") simp_all
qed

lemma distinct_document_ids:
  assumes "plain_units F units \<or> sheet_units F units"
  shows "distinct (map id' (document_items env fp units))"
proof -
  let ?N = "\<lambda>data. length (default_chunks (extracted_unit.text' data))"
  have ids: "map id' (document_items env fp units) =
             concat (map (\<lambda>u. map (chunkId u) [0 ..< ?N u]) units)"
    by (simp add: document_items_def map_concat comp_def ids_unit_items)
  from assms show ?thesis
  proof
    assume "plain_units F units"
    then obtain u where u: "units = [u]" "extracted_unit.sheet u = None"
      by (auto simp: plain_units_def split: list.splits)
    have "inj (chunkId u)"
      using plain_id_inj by (auto simp: inj_on_def chunkId_plain[OF u(2)])
    then have "distinct (map (chunkId u) [0 ..< ?N u])"
      by (simp add: distinct_map inj_on_subset[OF _ subset_UNIV])
    moreover have "map id' (document_items env fp units) = map (chunkId u) [0 ..< ?N u]"
      by (simp add: u(1) document_items_def ids_unit_items)
    ultimately show ?thesis by simp
  next
    assume su: "sheet_units F units"
    have du: "distinct units" using su by (simp add: sheet_units_def distinct_map)
    show ?thesis unfolding ids
    proof (rule distinct_concat_map_inj[OF du])
      fix u assume "u \<in> set units"
      show "distinct [0 ..< ?N u]" by simp
    next
      fix u v a b
      assume uv: "u \<in> set units" "v \<in> set units" and eq: "chunkId u a = chunkId v b"
      from sheet_units_D[OF su uv(1)] obtain s1 r1 where
        1: "extracted_unit.fileName u = F" "extracted_unit.sheet u = Some s1" "s1 \<noteq> []"
           "extracted_unit.row u = Some r1" by blast
      from sheet_units_D[OF su uv(2)] obtain s2 r2 where
        2: "extracted_unit.fileName v = F" "extracted_unit.sheet v = Some s2" "s2 \<noteq> []"
           "extracted_unit.row v = Some r2" by blast
      from eq have "F @ ''_'' @ s1 @ ''_row'' @ number_toString r1 @ ''_chunk'' @ number_toString a =
                    F @ ''_'' @ s2 @ ''_row'' @ number_toString r2 @ ''_chunk'' @ number_toString b"
        by (simp only: chunkId_sheet[OF 1(2,3,4)] chunkId_sheet[OF 2(2,3,4)] 1(1) 2(1))
      from sheet_id_inj[OF this] have e: "s1 = s2" "r1 = r2" "a = b" by blast+
      then have "unit_key u = unit_key v" using 1 2 by (simp add: unit_key_def)
      moreover have "inj_on unit_key (set units)"
        using su by (simp add: sheet_units_def distinct_map)
      ultimately have "u = v" using uv by (auto dest: inj_onD)
      with e show "u = v \<and> a = b" by simp
    qed
  qed
qed

lemma document_item_format:
  assumes "plain_units F units \<or> sheet_units F units"
      and "it \<in> set (document_items env fp units)"
  shows "metadata.fileName (metadata it) = F \<and>
         ((\<exists>s r. metadata.sheet (metadata it) = Some s \<and> metadata.row (metadata it) = Some r
             \<and> id' it = F @ ''_'' @ s @ ''_row'' @ number_toString r @ ''_chunk'' @
                          number_toString (metadata.chunkIndex (metadata it)))
          \<or> (metadata.sheet (metadata it) = None
             \<and> id' it = F @ ''_chunk_'' @ number_toString (metadata.chunkIndex (metadata it))))"
proof -
  from assms(2) obtain u p where u: "u \<in> set units" and it: "it = item_of env fp u p"
    by (auto simp: document_items_def unit_items_def)
  have ci: "metadata.chunkIndex (metadata it) = fst p" and fn: "metadata.fileName (metadata it) = extracted_unit.fileName u"
    by (simp_all add: it item_of_def makeItem_def)
  from assms(1) show ?thesis
  proof
    assume "plain_units F units"
    then have "extracted_unit.sheet u = None" "extracted_unit.fileName u = F"
      using u by (auto simp: plain_units_def split: list.splits)
    then show ?thesis
      using ci fn by (simp add: it id_item_of chunkId_plain) (simp add: item_of_def makeItem_def)
  next
    assume su: "sheet_units F units"
    from sheet_units_D[OF su u] obtain s r where
      1: "extracted_unit.fileName u = F" "extracted_unit.sheet u = Some s" "s \<noteq> []"
         "extracted_unit.row u = Some r" "r \<noteq> 0" by blast
    have "metadata.sheet (metadata it) = Some s" "metadata.row (metadata it) = Some r"
      using 1 by (simp_all add: it item_of_def makeItem_def)
    moreover have "id' it = F @ ''_'' @ s @ ''_row'' @ number_toString r @ ''_chunk'' @
                          number_toString (metadata.chunkIndex (metadata it))"
      using chunkId_sheet[OF 1(2,3,4)] 1(1) ci by (simp add: it id_item_of)
    ultimately show ?thesis using fn 1(1) by simp
  qed
qed

lemma sheetsLoop_rows:
  "sheetsLoop wb names acc = Inr rows \<Longrightarrow> \<forall>r\<in>set acc. excel_row.row r \<noteq> 0 \<Longrightarrow>
     \<forall>r\<in>set rows. excel_row.row r \<noteq> 0"
proof (induction names arbitrary: acc)
  case Nil
  then show ?case by simp
next
  case (Cons n rest)
  from Cons.prems(1) obtain ws where ws: "Sheets wb n = Some ws"
    and rec: "sheetsLoop wb rest (acc @ sheetRows n ws) = Inr rows"
    by (auto split: option.splits)
  have "\<forall>r\<in>set (acc @ sheetRows n ws). excel_row.row r \<noteq> 0"
    using Cons.prems(2) sheetRows_props(2)[of _ n ws] by auto
  from Cons.IH[OF rec this] show ?case .
qed

lemma extract_units_rows:
  assumes "extractTextFromFile env fp = Inr units" "u \<in> set units"
  shows "extracted_unit.fileName u = basename env fp \<and>
         (extracted_unit.sheet u = None \<or>
          (\<exists>s r. extracted_unit.sheet u = Some s \<and> extracted_unit.row u = Some r \<and> r \<noteq> 0))"
proof -
  let ?F = "basename env fp"
  let ?ext = "toLowerCase (extname env fp)"
  consider (c_pdf) "?ext = ''.pdf''" | (c_docx) "?ext \<noteq> ''.pdf'' \<and> ?ext = ''.docx''"
    | (c_xl) "?ext \<noteq> ''.pdf'' \<and> ?ext \<noteq> ''.docx'' \<and> (?ext = ''.xlsx'' \<or> ?ext = ''.xls'')"
    | (c_txt) "?ext \<noteq> ''.pdf'' \<and> ?ext \<noteq> ''.docx'' \<and> \<not> (?ext = ''.xlsx'' \<or> ?ext = ''.xls'')
            \<and> (?ext = ''.txt'' \<or> ?ext = ''.md'')"
    | (c_other) "?ext \<noteq> ''.pdf'' \<and> ?ext \<noteq> ''.docx'' \<and> \<not> (?ext = ''.xlsx'' \<or> ?ext = ''.xls'')
            \<and> \<not> (?ext = ''.txt'' \<or> ?ext = ''.md'')"
    by blast
  then show ?thesis
  proof cases
    case c_pdf
    then show ?thesis using assms
      by (auto simp: extractTextFromFile_def Let_def plain_unit_def split: sum.splits)
  next
    case c_docx
    then show ?thesis using assms
      by (auto simp: extractTextFromFile_def Let_def plain_unit_def split: sum.splits)
  next
    case c_xl
    then obtain rows where ex: "extractTextFromExcel env fp = Inr rows"
      and u: "units = map (excel_unit ?F) rows"
      using assms(1) by (auto simp: extractTextFromFile_def Let_def split: sum.splits)
    from ex obtain wb where sl: "sheetsLoop wb (SheetNames wb) [] = Inr rows"
      by (auto simp: extractTextFromExcel_def split: sum.splits)
    from sheetsLoop_rows[OF sl] have "\<forall>r\<in>set rows. excel_row.row r \<noteq> 0" by simp
    then show ?thesis using assms(2) unfolding u by (auto simp: excel_unit_def)
  next
    case c_txt
    then show ?thesis using assms
      by (auto simp: extractTextFromFile_def Let_def plain_unit_def split: sum.splits)
  next
    case c_other
    then show ?thesis using assms(1)
      by (auto simp: extractTextFromFile_def Let_def)
  qed
qed

lemma chunkId_blank:
  assumes "extracted_unit.sheet u = Some []"
  shows "chunkId u n = extracted_unit.fileName u @ ''_chunk_'' @ number_toString n"
  using assms by (simp add: chunkId_def)

lemma extracted_item_format:
  assumes "extractTextFromFile env fp = Inr units"
      and "it \<in> set (document_items env fp units)"
  shows "metadata.fileName (metadata it) = basename env fp \<and>
         ((\<exists>s r. metadata.sheet (metadata it) = Some s \<and> metadata.row (metadata it) = Some r
             \<and> id' it = basename env fp @ ''_'' @ s @ ''_row'' @ number_toString r @ ''_chunk'' @
                          number_toString (metadata.chunkIndex (metadata it)))
          \<or> (metadata.sheet (metadata it) = None
             \<and> id' it = basename env fp @ ''_chunk_'' @ number_toString (metadata.chunkIndex (metadata it))))"
proof -
  let ?F = "basename env fp"
  from assms(2) obtain u p where u: "u \<in> set units" and it: "it = item_of env fp u p"
    by (auto simp: document_items_def unit_items_def)
  have ci: "metadata.chunkIndex (metadata it) = fst p"
    and fn: "metadata.fileName (metadata it) = extracted_unit.fileName u"
    by (simp_all add: it item_of_def makeItem_def)
  from extract_units_rows[OF assms(1) u] have F: "extracted_unit.fileName u = ?F"
    and sh: "extracted_unit.sheet u = None \<or>
          (\<exists>s r. extracted_unit.sheet u = Some s \<and> extracted_unit.row u = Some r \<and> r \<noteq> 0)"
    by blast+
  from sh consider (plain) "extracted_unit.sheet u = None"
    | (blank) "extracted_unit.sheet u = Some []"
    | (named) s r where "extracted_unit.sheet u = Some s \<and> s \<noteq> [] \<and> extracted_unit.row u = Some r \<and> r \<noteq> 0"
    by (cases "extracted_unit.sheet u") auto
  then show ?thesis
  proof cases
    case plain
    have "metadata.sheet (metadata it) = None" using plain by (simp add: it item_of_def makeItem_def)
    moreover have "id' it = ?F @ ''_chunk_'' @ number_toString (metadata.chunkIndex (metadata it))"
      using chunkId_plain[OF plain] F ci by (simp add: it id_item_of)
    ultimately show ?thesis using fn F by simp
  next
    case blank
    have "metadata.sheet (metadata it) = None" using blank by (simp add: it item_of_def makeItem_def)
    moreover have "id' it = ?F @ ''_chunk_'' @ number_toString (metadata.chunkIndex (metadata it))"
      using chunkId_blank[OF blank] F ci by (simp add: it id_item_of)
    ultimately show ?thesis using fn F by simp
  next
    case named
    then have 1: "extracted_unit.sheet u = Some s" "s \<noteq> []" "extracted_unit.row u = Some r" "r \<noteq> 0"
      by blast+
    have "metadata.sheet (metadata it) = Some s" "metadata.row (metadata it) = Some r"
      using 1 by (simp_all add: it item_of_def makeItem_def)
    moreover have "id' it = ?F @ ''_'' @ s @ ''_row'' @ number_toString r @ ''_chunk'' @
                          number_toString (metadata.chunkIndex (metadata it))"
      using chunkId_sheet[OF 1(1,2,3)] F ci by (simp add: it id_item_of)
    ultimately show ?thesis using fn F by simp
  qed
qed

text \<open>
  Claim C8, as the code has it. In every indexing run an item of a sheet row with a non-empty
  sheet name has the identifier \<open>fileName_sheet_row<row>_chunk<i>\<close> and any other item
  \<open>fileName_chunk_<i>\<close>, where \<open>i\<close> is the chunk index stored with the item, and in a run
  that succeeds the chunk indices of each unit count from zero. No two items handed to the
  store have the same identifier when the sheet names of the workbook, if the file is one,
  are distinct and non-empty.
\<close>

theorem indexDocument_chunk_ids:
  "indexDocument env eng fp = Some ((evs, r), eng') \<longrightarrow>
     ((\<forall>wb. XLSX_readFile env fp = Inr wb \<longrightarrow> distinct (SheetNames wb) \<and> [] \<notin> set (SheetNames wb)) \<longrightarrow>
        distinct (map id' (inserted evs)))
   \<and> (\<forall>it\<in>set (inserted evs).
         metadata.fileName (metadata it) = basename env fp \<and>
         ((\<exists>s rw. metadata.sheet (metadata it) = Some s \<and> metadata.row (metadata it) = Some rw
             \<and> id' it = basename env fp @ ''_'' @ s @ ''_row'' @ number_toString rw @ ''_chunk'' @
                          number_toString (metadata.chunkIndex (metadata it)))
          \<or> (metadata.sheet (metadata it) = None
             \<and> id' it = basename env fp @ ''_chunk_'' @
                          number_toString (metadata.chunkIndex (metadata it)))))
   \<and> (\<forall>res. r = Inr res \<longrightarrow>
         (\<exists>units. extractTextFromFile env fp = Inr units
            \<and> map (\<lambda>it. metadata.chunkIndex (metadata it)) (inserted evs) =
                concat (map (\<lambda>data. [0 ..< length (default_chunks (extracted_unit.text' data))]) units)))"
proof (intro impI)
  assume run: "indexDocument env eng fp = Some ((evs, r), eng')"
  from indexDocument_events[of env eng fp] run
  have ev: "evs = [] \<or> (\<exists>units. extractTextFromFile env fp = Inr units
                        \<and> subseq (inserted evs) (document_items env fp units))"
    and ok: "\<And>res. r = Inr res \<Longrightarrow>
          (\<exists>units. extractTextFromFile env fp = Inr units
             \<and> evs = concat (map (unit_events env fp) units))"
    by auto
  have 1: "distinct (map id' (inserted evs))"
    if wf: "\<forall>wb. XLSX_readFile env fp = Inr wb \<longrightarrow> distinct (SheetNames wb) \<and> [] \<notin> set (SheetNames wb)"
  proof (cases "evs = []")
    case True
    then show ?thesis by simp
  next
    case False
    then obtain units where u: "extractTextFromFile env fp = Inr units"
      and s: "subseq (inserted evs) (document_items env fp units)" using ev by blast
    have "subseq (map id' (inserted evs)) (map id' (document_items env fp units))"
      using s by (rule subseq_map)
    then show ?thesis
      using distinct_document_ids[OF extract_units_shape[OF u wf]] by (rule subseq_distinct)
  qed
  have 2: "\<forall>it\<in>set (inserted evs).
         metadata.fileName (metadata it) = basename env fp \<and>
         ((\<exists>s rw. metadata.sheet (metadata it) = Some s \<and> metadata.row (metadata it) = Some rw
             \<and> id' it = basename env fp @ ''_'' @ s @ ''_row'' @ number_toString rw @ ''_chunk'' @
                          number_toString (metadata.chunkIndex (metadata it)))
          \<or> (metadata.sheet (metadata it) = None
             \<and> id' it = basename env fp @ ''_chunk_'' @
                          number_toString (metadata.chunkIndex (metadata it))))"
  proof
    fix it assume it: "it \<in> set (inserted evs)"
    from indexDocument_inserted[OF run it] obtain units where
      u: "extractTextFromFile env fp = Inr units" and m: "it \<in> set (document_items env fp units)"
      by blast
    from extracted_item_format[OF u m]
    show "metadata.fileName (metadata it) = basename env fp \<and>
         ((\<exists>s rw. metadata.sheet (metadata it) = Some s \<and> metadata.row (metadata it) = Some rw
             \<and> id' it = basename env fp @ ''_'' @ s @ ''_row'' @ number_toString rw @ ''_chunk'' @
                          number_toString (metadata.chunkIndex (metadata it)))
          \<or> (metadata.sheet (metadata it) = None
             \<and> id' it = basename env fp @ ''_chunk_'' @
                          number_toString (metadata.chunkIndex (metadata it))))" .
  qed
  have 3: "\<forall>res. r = Inr res \<longrightarrow>
         (\<exists>units. extractTextFromFile env fp = Inr units
            \<and> map (\<lambda>it. metadata.chunkIndex (metadata it)) (inserted evs) =
                concat (map (\<lambda>data. [0 ..< length (default_chunks (extracted_unit.text' data))]) units))"
  proof (intro allI impI)
    fix res assume "r = Inr res"
    from ok[OF this] obtain units where u: "extractTextFromFile env fp = Inr units"
      and e: "evs = concat (map (unit_events env fp) units)" by blast
    have "inserted (concat (map (unit_events env fp) us)) = document_items env fp us" for us
      by (induction us) (simp_all add: document_items_def inserted_append inserted_unit_events)
    then have "inserted evs = document_items env fp units" using e by simp
    then have "map (\<lambda>it. metadata.chunkIndex (metadata it)) (inserted evs) =
                concat (map (\<lambda>data. [0 ..< length (default_chunks (extracted_unit.text' data))]) units)"
      by (simp add: document_items_def map_concat comp_def chunkIndex_unit_items)
    with u show "\<exists>units. extractTextFromFile env fp = Inr units
            \<and> map (\<lambda>it. metadata.chunkIndex (metadata it)) (inserted evs) =
                concat (map (\<lambda>data. [0 ..< length (default_chunks (extracted_unit.text' data))]) units)"
      by blast
  qed
  show "((\<forall>wb. XLSX_readFile env fp = Inr wb \<longrightarrow> distinct (SheetNames wb) \<and> [] \<notin> set (SheetNames wb)) \<longrightarrow>
        distinct (map id' (inserted evs)))
   \<and> (\<forall>it\<in>set (inserted evs).
         metadata.fileName (metadata it) = basename env fp \<and>
         ((\<exists>s rw. metadata.sheet (metadata it) = Some s \<and> metadata.row (metadata it) = Some rw
             \<and> id' it = basename env fp @ ''_'' @ s @ ''_row'' @ number_toString rw @ ''_chunk'' @
                          number_toString (metadata.chunkIndex (metadata it)))
          \<or> (metadata.sheet (metadata it) = None
             \<and> id' it = basename env fp @ ''_chunk_'' @
                          number_toString (metadata.chunkIndex (metadata it)))))
   \<and> (\<forall>res. r = Inr res \<longrightarrow>
         (\<exists>units. extractTextFromFile env fp = Inr units
            \<and> map (\<lambda>it. metadata.chunkIndex (metadata it)) (inserted evs) =
                concat (map (\<lambda>data. [0 ..< length (default_chunks (extracted_unit.text' data))]) units)))"
    apply (rule conjI)
     apply (rule impI, erule 1)
    apply (rule conjI, rule 2)
    apply (rule 3)
    done
qed

text \<open>The theorem for a workbook of two sheets.\<close>

theorem indexDocument_chunk_ids_witness:
  "distinct (SheetNames example_workbook) \<and> [] \<notin> set (SheetNames example_workbook)
   \<and> map id' (inserted (fst (fst (the (indexDocument example_xlsx_env engine0 ''book.xlsx''))))) =
       [''book.xlsx_Reqs_row1_chunk0'', ''book.xlsx_Reqs_row2_chunk0'', ''book.xlsx_Notes_row1_chunk0'']
   \<and> snd (fst (the (indexDocument example_xlsx_env engine0 ''book.xlsx''))) =
       Inr \<lparr>index_result.fileName = ''book.xlsx'', chunksCreated = 3\<rparr>
   \<and> distinct (map id' (inserted (fst (fst (the (indexDocument example_xlsx_env engine0 ''book.xlsx''))))))
   \<and> map (\<lambda>it. metadata.chunkIndex (metadata it))
        (inserted (fst (fst (the (indexDocument example_xlsx_env engine0 ''book.xlsx''))))) = [0, 0, 0]"
proof -
  let ?X = "indexDocument example_xlsx_env engine0 ''book.xlsx''"
  have wf0: "distinct (SheetNames example_workbook) \<and> [] \<notin> set (SheetNames example_workbook)"
    by (simp add: example_workbook_def)
  then have wf: "\<forall>wb. XLSX_readFile example_xlsx_env ''book.xlsx'' = Inr wb \<longrightarrow>
                   distinct (SheetNames wb) \<and> [] \<notin> set (SheetNames wb)"
    by (auto simp: example_xlsx_env_def)
  obtain evs r eng' where run: "?X = Some ((evs, r), eng')"
    using indexDocument_events[of example_xlsx_env engine0 "''book.xlsx''"] by blast
  then have e: "fst (fst (the ?X)) = evs" by simp
  have ids: "map id' (inserted (fst (fst (the ?X)))) =
       [''book.xlsx_Reqs_row1_chunk0'', ''book.xlsx_Reqs_row2_chunk0'', ''book.xlsx_Notes_row1_chunk0'']"
    by code_simp
  have res: "snd (fst (the ?X)) = Inr \<lparr>index_result.fileName = ''book.xlsx'', chunksCreated = 3\<rparr>"
    by code_simp
  have ci: "map (\<lambda>it. metadata.chunkIndex (metadata it)) (inserted (fst (fst (the ?X)))) = [0, 0, 0]"
    by code_simp
  from indexDocument_chunk_ids[of example_xlsx_env engine0 "''book.xlsx''" evs r eng'] wf run
  have "distinct (map id' (inserted evs))" by blast
  then show ?thesis using wf0 ids res ci e by simp
qed

text \<open>
  Two workbooks for which a run succeeds and hands two items with the same identifier to the
  store: one lists the sheet name \<open>A\<close> twice, so its row is read twice; the other has a
  sheet with the empty name, which the test \<^verbatim>\<open>data.sheet ? \<dots>\<close> takes for no sheet, so
  its two rows get the identifier of a plain file.
\<close>

theorem indexDocument_chunk_ids_counterexample:
  "SheetNames example_dup_workbook = [''A'', ''A'']
   \<and> snd (fst (the (indexDocument (example_workbook_env example_dup_workbook) engine0 ''book.xlsx''))) =
       Inr \<lparr>index_result.fileName = ''book.xlsx'', chunksCreated = 2\<rparr>
   \<and> map id' (inserted (fst (fst (the (indexDocument (example_workbook_env example_dup_workbook)
                                          engine0 ''book.xlsx''))))) =
       [''book.xlsx_A_row1_chunk0'', ''book.xlsx_A_row1_chunk0'']
   \<and> SheetNames example_blank_workbook = ['''']
   \<and> snd (fst (the (indexDocument (example_workbook_env example_blank_workbook) engine0 ''book.xlsx''))) =
       Inr \<lparr>index_result.fileName = ''book.xlsx'', chunksCreated = 2\<rparr>
   \<and> map id' (inserted (fst (fst (the (indexDocument (example_workbook_env example_blank_workbook)
                                          engine0 ''book.xlsx''))))) =
       [''book.xlsx_chunk_0'', ''book.xlsx_chunk_0'']
   \<and> map (\<lambda>it. (metadata.sheet (metadata it), metadata.row (metadata it)))
        (inserted (fst (fst (the (indexDocument (example_workbook_env example_blank_workbook)
                                          engine0 ''book.xlsx''))))) =
       [(None, Some 1), (None, Some 2)]"
  by code_simp

section \<open>Properties of the statistics\<close>

lemma initialize_Inr_iff:
  "initialize env eng = Inr eng' \<longleftrightarrow>
     (isInitialized eng \<and> eng' = eng) \<or>
     (\<not> isInitialized eng \<and> eng' = eng\<lparr>isInitialized := True\<rparr> \<and>
        (createIndex env = Inr () \<or>
         (\<exists>e. createIndex env = Inl e \<and> includes_str (message e) ''already exists'')))"
  unfolding initialize_def by (auto split: sum.splits)

lemma initialize_Inl_iff:
  "initialize env eng = Inl error \<longleftrightarrow>
     \<not> isInitialized eng \<and> createIndex env = Inl error \<and>
     \<not> includes_str (message error) ''already exists''"
  unfolding initialize_def by (auto split: sum.splits)

lemma initialize_indexPath: "initialize env eng = Inr eng' \<Longrightarrow> engine.indexPath eng' = engine.indexPath eng"
  unfolding initialize_def by (auto split: sum.splits if_splits)

text \<open>
  Claim C10, as the code has it. \<open>initialize\<close> is called before the \<^verbatim>\<open>try\<close> block. When it
  succeeds (the engine is initialised already, or \<open>createIndex\<close> succeeds or fails with a
  message that contains \<open>already exists\<close>), a failure of \<open>listItems\<close> gives the zero-valued
  statistics. \<open>getStats\<close> fails exactly when the engine is not initialised and \<open>createIndex\<close>
  fails with another message, and then with that error.
\<close>

theorem getStats_list_failure:
  "(initialize env eng = Inr eng' \<and> listItems env = Inl error \<longrightarrow>
      getStats env eng =
        (Inr \<lparr>totalChunks = 0, totalDocuments = 0, documents = [],
               stats.indexPath = engine.indexPath eng\<rparr>, eng'))
   \<and> (initialize env eng = Inr eng' \<longleftrightarrow>
        (isInitialized eng \<and> eng' = eng) \<or>
        (\<not> isInitialized eng \<and> eng' = eng\<lparr>isInitialized := True\<rparr> \<and>
           (createIndex env = Inr () \<or>
            (\<exists>e. createIndex env = Inl e \<and> includes_str (message e) ''already exists''))))
   \<and> (fst (getStats env eng) = Inl error \<longleftrightarrow>
        \<not> isInitialized eng \<and> createIndex env = Inl error \<and>
        \<not> includes_str (message error) ''already exists'')"
proof (intro conjI impI)
  assume a: "initialize env eng = Inr eng' \<and> listItems env = Inl error"
  then show "getStats env eng =
        (Inr \<lparr>totalChunks = 0, totalDocuments = 0, documents = [],
               stats.indexPath = engine.indexPath eng\<rparr>, eng')"
    using initialize_indexPath[of env eng eng'] by (simp add: getStats_def)
next
  show "initialize env eng = Inr eng' \<longleftrightarrow>
        (isInitialized eng \<and> eng' = eng) \<or>
        (\<not> isInitialized eng \<and> eng' = eng\<lparr>isInitialized := True\<rparr> \<and>
           (createIndex env = Inr () \<or>
            (\<exists>e. createIndex env = Inl e \<and> includes_str (message e) ''already exists'')))"
    by (rule initialize_Inr_iff)
next
  have "fst (getStats env eng) = Inl error \<longleftrightarrow> initialize env eng = Inl error"
    by (auto simp: getStats_def Let_def split: sum.splits)
  then show "fst (getStats env eng) = Inl error \<longleftrightarrow>
        \<not> isInitialized eng \<and> createIndex env = Inl error \<and>
        \<not> includes_str (message error) ''already exists''"
    by (simp only: initialize_Inl_iff)
qed

text \<open>The theorem for a store whose index exists already and whose listing fails.\<close>

theorem getStats_list_failure_witness:
  "initialize (example_env []\<lparr>createIndex := Inl (JsError ''Index already exists''),
                              listItems := Inl (JsError ''ENOENT: no such file'')\<rparr>) engine0
     = Inr (engine0\<lparr>isInitialized := True\<rparr>)
   \<and> getStats (example_env []\<lparr>createIndex := Inl (JsError ''Index already exists''),
                              listItems := Inl (JsError ''ENOENT: no such file'')\<rparr>) engine0
     = (Inr \<lparr>totalChunks = 0, totalDocuments = 0, documents = [],
             stats.indexPath = ''./requirements-index''\<rparr>, engine0\<lparr>isInitialized := True\<rparr>)"
proof -
  let ?env = "example_env []\<lparr>createIndex := Inl (JsError ''Index already exists''),
                              listItems := Inl (JsError ''ENOENT: no such file'')\<rparr>"
  have i: "initialize ?env engine0 = Inr (engine0\<lparr>isInitialized := True\<rparr>)"
    by (simp add: initialize_def engine0_def example_env_def)
  have l: "listItems ?env = Inl (JsError ''ENOENT: no such file'')" by simp
  from getStats_list_failure[of ?env engine0 "engine0\<lparr>isInitialized := True\<rparr>"
        "JsError ''ENOENT: no such file''", THEN conjunct1] i l
  have "getStats ?env engine0 =
        (Inr \<lparr>totalChunks = 0, totalDocuments = 0, documents = [],
               stats.indexPath = engine.indexPath engine0\<rparr>, engine0\<lparr>isInitialized := True\<rparr>)"
    by blast
  then show ?thesis using i by (simp add: engine0_def)
qed

text \<open>A store that cannot create its index: the error of \<open>createIndex\<close> leaves \<open>getStats\<close>.\<close>

theorem getStats_list_failure_counterexample:
  "getStats (example_env []\<lparr>createIndex := Inl (JsError ''EACCES: permission denied'')\<rparr>) engine0
     = (Inl (JsError ''EACCES: permission denied''), engine0)"
  by (simp add: getStats_def initialize_def engine0_def example_env_def)

end
